theory Spec2Isabelle
  imports
    Main
    "HOL-Library.Word"
    "HOL-Library.Signed_Division"
    "HOL-Library.Char_ord"
    "HOL-Library.List_Lexorder"
    "HOL-Library.Multiset"
    "HOL-Library.AList"
begin

section \<open>Go strings and the library calls of package flamegraph\<close>

text \<open>
  A Go string is a sequence of bytes, modelled as a \<^typ>\<open>string\<close> (a list of 8-bit
  characters).  \<open>sort.Strings\<close> orders strings bytewise, which is the lexicographic order
  on character lists over the order of character codes.

  Go's \<open>int\<close> is 64 bits wide.  The sample counters of the code (\<open>count\<close>,
  \<open>totalSamples\<close>, \<open>frame.value\<close> and the values of the \<open>stacks\<close> map) are sums
  of numbers read from the input, so they are modelled as 64-bit words, whose addition
  wraps around as Go's does; \<open>sint\<close> reads them as the signed number Go sees.
\<close>

type_synonym goint = "64 word"

subsection \<open>White space (\<open>unicode.IsSpace\<close>, and the same table in \<open>fmt\<close>)\<close>

text \<open>
  The white-space runes are U+0009..U+000D, U+0020, U+0085, U+00A0, U+1680,
  U+2000..U+200A, U+2028, U+2029, U+202F, U+205F and U+3000.  The list below holds their
  UTF-8 encodings.  None of them is a prefix of another and none starts with a
  continuation byte, so a byte string starts (or ends) with a white-space rune exactly
  when it starts (or ends) with one of these encodings.
\<close>

definition spaceRunes :: "string list" where
  "spaceRunes =
     [[CHR 0x09], [CHR 0x0A], [CHR 0x0B], [CHR 0x0C], [CHR 0x0D], [CHR 0x20],
      [CHR 0xC2, CHR 0x85], [CHR 0xC2, CHR 0xA0],
      [CHR 0xE1, CHR 0x9A, CHR 0x80],
      [CHR 0xE2, CHR 0x80, CHR 0x80], [CHR 0xE2, CHR 0x80, CHR 0x81],
      [CHR 0xE2, CHR 0x80, CHR 0x82], [CHR 0xE2, CHR 0x80, CHR 0x83],
      [CHR 0xE2, CHR 0x80, CHR 0x84], [CHR 0xE2, CHR 0x80, CHR 0x85],
      [CHR 0xE2, CHR 0x80, CHR 0x86], [CHR 0xE2, CHR 0x80, CHR 0x87],
      [CHR 0xE2, CHR 0x80, CHR 0x88], [CHR 0xE2, CHR 0x80, CHR 0x89],
      [CHR 0xE2, CHR 0x80, CHR 0x8A],
      [CHR 0xE2, CHR 0x80, CHR 0xA8], [CHR 0xE2, CHR 0x80, CHR 0xA9],
      [CHR 0xE2, CHR 0x80, CHR 0xAF],
      [CHR 0xE2, CHR 0x81, CHR 0x9F],
      [CHR 0xE3, CHR 0x80, CHR 0x80]]"

definition HasPrefix :: "string \<Rightarrow> string \<Rightarrow> bool" where
  "HasPrefix s p = (take (length p) s = p)"

definition HasSuffix :: "string \<Rightarrow> string \<Rightarrow> bool" where
  "HasSuffix s p = (length p \<le> length s \<and> drop (length s - length p) s = p)"

text \<open>The number of bytes of the white-space rune \<open>s\<close> starts with; 0 when it starts
  with none.\<close>

definition spaceLen :: "string \<Rightarrow> nat" where
  "spaceLen s = (case find (HasPrefix s) spaceRunes of None \<Rightarrow> 0 | Some p \<Rightarrow> length p)"

text \<open>The same for the rune \<open>s\<close> ends with.\<close>

definition spaceLenEnd :: "string \<Rightarrow> nat" where
  "spaceLenEnd s = (case find (HasSuffix s) spaceRunes of None \<Rightarrow> 0 | Some p \<Rightarrow> length p)"

lemma spaceLen_le: "spaceLen s \<le> length s"
proof (cases "find (HasPrefix s) spaceRunes")
  case None
  then show ?thesis by (simp add: spaceLen_def)
next
  case (Some p)
  then have "HasPrefix s p" by (auto simp: find_Some_iff)
  then have "length p \<le> length s"
    by (metis HasPrefix_def length_take min.cobounded1)
  with Some show ?thesis by (simp add: spaceLen_def)
qed

lemma spaceLenEnd_le: "spaceLenEnd s \<le> length s"
proof (cases "find (HasSuffix s) spaceRunes")
  case None
  then show ?thesis by (simp add: spaceLenEnd_def)
next
  case (Some p)
  then have "HasSuffix s p" by (auto simp: find_Some_iff)
  then have "length p \<le> length s" by (simp add: HasSuffix_def)
  with Some show ?thesis by (simp add: spaceLenEnd_def)
qed

subsection \<open>\<open>strings.TrimSpace\<close>, \<open>strings.Fields\<close>\<close>

function TrimLeft :: "string \<Rightarrow> string" where
  "TrimLeft s = (if spaceLen s = 0 then s else TrimLeft (drop (spaceLen s) s))"
  by pat_completeness auto
termination
proof (relation "measure length")
  show "wf (measure length)" by simp
next
  fix s :: string
  assume "spaceLen s \<noteq> 0"
  moreover have "spaceLen s \<le> length s" by (rule spaceLen_le)
  ultimately show "(drop (spaceLen s) s, s) \<in> measure length" by simp
qed

declare TrimLeft.simps [simp del]

function TrimRight :: "string \<Rightarrow> string" where
  "TrimRight s =
     (if spaceLenEnd s = 0 then s else TrimRight (take (length s - spaceLenEnd s) s))"
  by pat_completeness auto
termination
proof (relation "measure length")
  show "wf (measure length)" by simp
next
  fix s :: string
  assume "spaceLenEnd s \<noteq> 0"
  moreover have "spaceLenEnd s \<le> length s" by (rule spaceLenEnd_le)
  ultimately show "(take (length s - spaceLenEnd s) s, s) \<in> measure length" by simp
qed

declare TrimRight.simps [simp del]

definition TrimSpace :: "string \<Rightarrow> string" where
  "TrimSpace s = TrimRight (TrimLeft s)"

text \<open>\<open>strings.Fields\<close>: the maximal runs of bytes between white-space runes.  The first
  argument is the field collected so far.\<close>

function fieldsFrom :: "string \<Rightarrow> string \<Rightarrow> string list" where
  "fieldsFrom cur s =
     (case s of
        [] \<Rightarrow> (if cur = [] then [] else [cur])
      | c # r \<Rightarrow>
          if spaceLen s = 0 then fieldsFrom (cur @ [c]) r
          else (if cur = [] then [] else [cur]) @ fieldsFrom [] (drop (spaceLen s) s))"
  by pat_completeness auto
termination
proof (relation "measure (\<lambda>(cur, s). length s)")
  show "wf (measure (\<lambda>(cur, s). length s))" by simp
next
  fix cur s :: string and c r
  assume "s = c # r"
  then show "((cur @ [c], r), (cur, s)) \<in> measure (\<lambda>(cur, s). length s)" by simp
next
  fix cur s :: string and c r
  assume "s = c # r" "spaceLen s \<noteq> 0"
  moreover have "spaceLen s \<le> length s" by (rule spaceLen_le)
  ultimately show "(([], drop (spaceLen s) s), (cur, s)) \<in> measure (\<lambda>(cur, s). length s)"
    by simp
qed

declare fieldsFrom.simps [simp del]

definition Fields :: "string \<Rightarrow> string list" where
  "Fields s = fieldsFrom [] s"

subsection \<open>\<open>strings.Index\<close>, \<open>strings.Split\<close>, \<open>strings.SplitN\<close>, \<open>strings.Join\<close>\<close>

text \<open>\<open>strings.Index\<close> for a separator of one byte: the index of its first occurrence,
  or -1.\<close>

definition Index :: "string \<Rightarrow> char \<Rightarrow> int" where
  "Index s c = (if c \<in> set s then int (length (takeWhile (\<lambda>x. x \<noteq> c) s)) else - 1)"

text \<open>\<open>strings.Split\<close> for a separator of one byte: never an empty list.\<close>

fun splitFrom :: "string \<Rightarrow> char \<Rightarrow> string \<Rightarrow> string list" where
  "splitFrom cur sep [] = [cur]"
| "splitFrom cur sep (c # r) =
     (if c = sep then cur # splitFrom [] sep r else splitFrom (cur @ [c]) sep r)"

definition Split :: "string \<Rightarrow> char \<Rightarrow> string list" where
  "Split s sep = splitFrom [] sep s"

text \<open>\<open>strings.SplitN(s, sep, 2)\<close> for a separator of one byte: the text before the
  first separator and the text after it, or the whole text when it has none.\<close>

definition SplitN2 :: "string \<Rightarrow> char \<Rightarrow> string list" where
  "SplitN2 s sep =
     (if Index s sep < 0 then [s]
      else [take (nat (Index s sep)) s, drop (nat (Index s sep) + 1) s])"

fun Join :: "string list \<Rightarrow> string \<Rightarrow> string" where
  "Join [] sep = []"
| "Join [x] sep = x"
| "Join (x # y # r) sep = x @ sep @ Join (y # r) sep"

subsection \<open>\<open>fmt.Sscanf(s, "%d", &n)\<close> and \<open>%d\<close> in \<open>fmt.Fprintf\<close>\<close>

definition isDigit :: "char \<Rightarrow> bool" where
  "isDigit c = (CHR ''0'' \<le> c \<and> c \<le> CHR ''9'')"

definition digitVal :: "char \<Rightarrow> int" where
  "digitVal c = of_char c - 48"

definition decimal :: "string \<Rightarrow> int" where
  "decimal ds = foldl (\<lambda>a c. 10 * a + digitVal c) 0 ds"

text \<open>\<open>SkipSpace\<close> of a scan that does not treat newlines as space: white space is
  skipped, a newline is the error "unexpected newline".\<close>

function SkipSpace :: "string \<Rightarrow> string option" where
  "SkipSpace s =
     (if HasPrefix s [CHR 0x0A] then None
      else if spaceLen s = 0 then Some s
      else SkipSpace (drop (spaceLen s) s))"
  by pat_completeness auto
termination
proof (relation "measure length")
  show "wf (measure length)" by simp
next
  fix s :: string
  assume "spaceLen s \<noteq> 0"
  moreover have "spaceLen s \<le> length s" by (rule spaceLen_le)
  ultimately show "(drop (spaceLen s) s, s) \<in> measure length" by simp
qed

declare SkipSpace.simps [simp del]

text \<open>
  The verb \<open>%d\<close>: leading white space, one optional sign, at least one decimal digit;
  what follows the digits is left unread.  \<open>None\<close> is every error of the scan (no
  input, no digit, a newline, a number outside of 64 bits): the variable then keeps the
  value it had, and the callers drop the error.
\<close>

definition Sscanf_d :: "string \<Rightarrow> goint option" where
  "Sscanf_d s =
     (case SkipSpace s of
        None \<Rightarrow> None
      | Some t \<Rightarrow>
          let neg = HasPrefix t ''-'';
              u = (if HasPrefix t ''-'' \<or> HasPrefix t ''+'' then drop 1 t else t);
              ds = takeWhile isDigit u;
              n = (if neg then - decimal ds else decimal ds)
          in if ds = [] then None
             else if n < - (2 ^ 63) \<or> 2 ^ 63 - 1 < n then None
             else Some (word_of_int n))"

text \<open>Decimal digits of a natural number, and \<open>%d\<close> of an \<open>int\<close>.\<close>

definition digitChar :: "nat \<Rightarrow> char" where
  "digitChar n = ''0123456789'' ! (n mod 10)"

fun natDigits :: "nat \<Rightarrow> string" where
  "natDigits n =
     (if n < 10 then [digitChar n] else natDigits (n div 10) @ [digitChar (n mod 10)])"

declare natDigits.simps [simp del]

definition fmt_d :: "int \<Rightarrow> string" where
  "fmt_d i = (if i < 0 then ''-'' @ natDigits (nat (- i)) else natDigits (nat i))"

subsection \<open>\<open>bufio.Scanner\<close> with the default split function \<open>ScanLines\<close>\<close>

text \<open>
  \<open>for scanner.Scan() { line := scanner.Text() ... }\<close> visits the lines of the input:
  the text up to each newline, and what follows the last newline when that is not
  empty, each without one trailing carriage return.  The scanner's buffer holds at most
  \<open>MaxScanTokenSize\<close> bytes: at a line that does not fit, \<open>Scan\<close> returns false and the
  loop ends (the callers never look at \<open>scanner.Err()\<close>).
  The first argument of \<open>scanFrom\<close> is the line read so far.
\<close>

definition MaxScanTokenSize :: nat where
  "MaxScanTokenSize = 64 * 1024"

definition dropCR :: "string \<Rightarrow> string" where
  "dropCR l = (if l \<noteq> [] \<and> last l = CHR 0x0D then butlast l else l)"

fun scanFrom :: "string \<Rightarrow> string \<Rightarrow> string list" where
  "scanFrom cur [] =
     (if cur = [] \<or> MaxScanTokenSize \<le> length cur then [] else [dropCR cur])"
| "scanFrom cur (c # r) =
     (if c = CHR 0x0A
      then (if MaxScanTokenSize \<le> length cur then [] else dropCR cur # scanFrom [] r)
      else scanFrom (cur @ [c]) r)"

definition scanLines :: "string \<Rightarrow> string list" where
  "scanLines input = scanFrom [] input"

subsection \<open>\<open>html.EscapeString\<close>\<close>

definition escapeChar :: "char \<Rightarrow> string" where
  "escapeChar c =
     (if c = CHR ''&'' then ''&amp;''
      else if c = CHR 0x27 then ''&#39;''
      else if c = CHR ''<'' then ''&lt;''
      else if c = CHR ''>'' then ''&gt;''
      else if c = CHR 0x22 then ''&#34;''
      else [c])"

definition EscapeString :: "string \<Rightarrow> string" where
  "EscapeString s = concat (map escapeChar s)"

section \<open>The flame graph: \<open>SVGOptions\<close>, \<open>frame\<close>, \<open>GenerateSVG\<close>\<close>

record SVGOptions =
  Title :: string
  Width :: int
  Height :: int
  ColorScheme :: string

definition DefaultSVGOptions :: SVGOptions where
  "DefaultSVGOptions = \<lparr>Title = ''Flame Graph'', Width = 1200, Height = 0, ColorScheme = ''hot''\<rparr>"

text \<open>
  \<open>type frame struct { name string; value int; children map[string]*frame }\<close>.
  Every frame is reached through exactly one pointer (the tree is built top down and
  nodes are never shared), so the pointers are modelled by nesting.  The \<open>children\<close>
  map is an association list, a new key going to its end; a Go map has no order, and the
  code reads the keys of a map in whatever order the runtime yields them.
\<close>

datatype frame = Frame (name: string) (val: goint) (children: "(string \<times> frame) list")

definition newFrame :: "string \<Rightarrow> frame" where
  "newFrame nm = Frame nm 0 []"

subsection \<open>Parsing the collapsed stacks into the tree\<close>

text \<open>Lines 71 to 79, the walk from \<open>node\<close> along the frames of one stack: the
  function returns the \<open>children\<close> map of \<open>node\<close> after the walk.\<close>

fun addStack :: "string list \<Rightarrow> goint \<Rightarrow> (string \<times> frame) list \<Rightarrow> (string \<times> frame) list" where
  "addStack [] cnt ch = ch"
| "addStack (fname # rest) cnt ch =
     (let child = (case map_of ch fname of None \<Rightarrow> newFrame fname | Some c \<Rightarrow> c)
      in AList.update fname
           (Frame (name child) (val child + cnt) (addStack rest cnt (children child))) ch)"

text \<open>Lines 61 to 65: \<open>count := 0; fmt.Sscanf(parts[1], "%d", &count);
  if count == 0 { count = 1 }\<close>.\<close>

definition scanCount :: "string \<Rightarrow> goint" where
  "scanCount s =
     (let cnt = (case Sscanf_d s of None \<Rightarrow> 0 | Some n \<Rightarrow> n)
      in if cnt = 0 then 1 else cnt)"

text \<open>The body of the loop of lines 54 to 81, on the state \<open>(root, totalSamples)\<close>.\<close>

definition addLine :: "frame \<times> goint \<Rightarrow> string \<Rightarrow> frame \<times> goint" where
  "addLine st line =
     (case SplitN2 line CHR '' '' of
        [stack, rest] \<Rightarrow>
          (let root = fst st;
               cnt = scanCount rest;
               totalSamples = snd st + cnt;
               frames = Split stack CHR '';''
           in (Frame (name root) (val root + cnt) (addStack frames cnt (children root)),
               totalSamples))
      | _ \<Rightarrow> st)"

definition parseCollapsed :: "string \<Rightarrow> frame \<times> goint" where
  "parseCollapsed collapsed = foldl addLine (newFrame ''root'', 0) (scanLines collapsed)"

subsection \<open>Colours and depth\<close>

text \<open>
  The pixel arithmetic of the code is in Go's \<open>int\<close>, which has 64 bits on the platforms of
  the tool.  The coordinates and widths of the rendering are modelled in \<^typ>\<open>int\<close>;
  \<open>smod\<close> and \<open>sdiv\<close> are Go's \<open>%\<close> and \<open>/\<close>, which truncate towards zero.  In
  \<open>frameColor\<close> the products and sums wrap around as they do in the code: \<open>wrap64 i\<close> is
  the value that Go's \<open>int\<close> holds after an operation whose exact result is \<open>i\<close>.
\<close>

definition wrap64 :: "int \<Rightarrow> int" where
  "wrap64 i = signed_take_bit 63 i"

definition frameColor :: "int \<Rightarrow> string \<Rightarrow> int \<times> int \<times> int" where
  "frameColor depth scheme =
     (if scheme = ''cold'' then
        (let g = wrap64 (50 + wrap64 (depth * 30) smod 150);
             b = wrap64 (150 + wrap64 (depth * 20) smod 100)
         in (30, g, b))
      else if scheme = ''mem'' then
        (let g = wrap64 (190 + wrap64 (depth * 15) smod 60)
         in (30, g, 30))
      else
        (let r = wrap64 (200 + wrap64 (depth * 15) smod 55);
             g = wrap64 (50 + wrap64 (depth * 40) smod 150)
         in (r, g, 30)))"

fun getMaxDepth :: "frame \<Rightarrow> int \<Rightarrow> int" where
  "getMaxDepth (Frame nm v ch) depth =
     fold (\<lambda>child mx. let d = getMaxDepth child (depth + 1) in if d > mx then d else mx)
       (map snd ch) depth"

subsection \<open>Rendering\<close>

definition dq :: string where
  "dq = [CHR 0x22]"

definition nl :: string where
  "nl = [CHR 0x0A]"

text \<open>
  Two expressions of the renderer are \<open>float64\<close> arithmetic: the percentage of the
  tooltip (line 158), \<open>float64(f.value) / float64(totalSamples) * 100\<close> formatted with
  \<open>%.1f\<close>, and the width of a child (line 174),
  \<open>int(float64(width) * float64(child.value) / float64(f.value))\<close>.  Both are functions
  of their integer arguments and nothing else.  They are the two fields of the record
  \<open>float64ops\<close>, which the renderer takes as a parameter: \<open>fmtPct\<close> is the formatted
  percentage, \<open>scaleFloat\<close> the converted quotient.
\<close>

record float64ops =
  fmtPct :: "goint \<Rightarrow> goint \<Rightarrow> string"
  scaleFloat :: "int \<Rightarrow> goint \<Rightarrow> goint \<Rightarrow> int"

text \<open>
  Where the arithmetic of line 174 is exact, its value is known without the parameter.
  When \<open>width\<close>, \<open>child.value\<close>, \<open>f.value\<close> and the product \<open>width * child.value\<close>
  are all below \<open>2^53\<close> in magnitude, the three conversions to \<open>float64\<close> and the
  product are exact, the quotient is the exact quotient rounded to the nearest
  \<open>float64\<close>, and this rounding does not reach the next integer: between the exact
  quotient of two such integers and the next integer lies more than half the distance of
  two neighbouring \<open>float64\<close> values.  The conversion to \<open>int\<close> truncates towards zero,
  so the result is the truncated exact quotient.  Outside of this range the result depends
  on the rounding and is \<open>scaleFloat\<close>.  \<open>f.value\<close> is not zero here (line 127).
\<close>

definition exactRange :: "int \<Rightarrow> int \<Rightarrow> int \<Rightarrow> bool" where
  "exactRange width cv fv =
     (\<bar>width\<bar> < 2 ^ 53 \<and> \<bar>cv\<bar> < 2 ^ 53 \<and> \<bar>fv\<bar> < 2 ^ 53 \<and> \<bar>width * cv\<bar> < 2 ^ 53)"

definition scaleWidth :: "float64ops \<Rightarrow> int \<Rightarrow> goint \<Rightarrow> goint \<Rightarrow> int" where
  "scaleWidth fl width cv fv =
     (if exactRange width (sint cv) (sint fv)
      then (width * sint cv) sdiv (sint fv)
      else scaleFloat fl width cv fv)"

text \<open>Lines 174 to 177: the width of the rectangle of a child.\<close>

definition childWidth :: "float64ops \<Rightarrow> int \<Rightarrow> goint \<Rightarrow> goint \<Rightarrow> int" where
  "childWidth fl width cv fv =
     (let w = scaleWidth fl width cv fv in if w < 1 then 1 else w)"

text \<open>Lines 143 to 151: the label of a frame that is more than 40 pixels wide.\<close>

definition frameLabel :: "string \<Rightarrow> int \<Rightarrow> string" where
  "frameLabel nm width =
     (let maxChars = (width - 4) sdiv 7
      in if int (length nm) > maxChars
         then (if maxChars > 3 then take (nat (maxChars - 2)) nm @ ''..'' else [])
         else nm)"

definition rectText :: "int \<Rightarrow> int \<Rightarrow> int \<Rightarrow> int \<Rightarrow> int \<times> int \<times> int \<Rightarrow> string" where
  "rectText x y width frameHeight rgb =
     (case rgb of (r, g, b) \<Rightarrow>
       ''<g class='' @ dq @ ''func'' @ dq @ ''>'' @ nl @ ''<rect x='' @ dq @
       fmt_d x @ dq @ '' y='' @ dq @ fmt_d (y - frameHeight) @ dq @ '' width='' @
       dq @ fmt_d width @ dq @ '' height='' @ dq @ fmt_d (frameHeight - 1) @ dq @
       '' fill='' @ dq @ ''rgb('' @ fmt_d r @ '','' @ fmt_d g @ '','' @ fmt_d b @
       '')'' @ dq @ '' rx='' @ dq @ ''1'' @ dq @ ''/>'' @ nl)"

definition labelText :: "int \<Rightarrow> int \<Rightarrow> string \<Rightarrow> string" where
  "labelText x y label =
       ''<text x='' @ dq @ fmt_d (x + 2) @ dq @ '' y='' @ dq @ fmt_d (y - 4) @
       dq @ '' fill='' @ dq @ ''black'' @ dq @ ''>'' @ EscapeString label @
       ''</text>'' @ nl"

definition titleText :: "frame \<Rightarrow> string \<Rightarrow> string" where
  "titleText f pctStr =
       ''<title>'' @ EscapeString (name f) @ '' ('' @ fmt_d (sint (val f)) @
       '' samples, '' @ pctStr @ '')</title>'' @ nl @ ''</g>'' @ nl"

lemma size_child:
  "map_of ch nm = Some child \<Longrightarrow> size child < size (Frame n v ch)"
  by (induction ch) (auto split: if_splits)

text \<open>
  \<open>renderFrame\<close> returns the text it writes to \<open>w\<close>; \<open>renderChildren\<close> is its loop
  of lines 172 to 180 over the sorted names, with \<open>childX\<close> as an argument.
  The parameter \<open>fl\<close> holds the two floating-point expressions.
  Every name of \<open>childNames\<close> is a key of \<open>f.children\<close>, so the lookup of line 173
  finds a child.
\<close>

function
  renderFrame :: "float64ops \<Rightarrow> frame \<Rightarrow> int \<Rightarrow> int \<Rightarrow> int \<Rightarrow> int \<Rightarrow> int \<Rightarrow>
     goint \<Rightarrow> int \<Rightarrow> string \<Rightarrow> string"
and
  renderChildren :: "float64ops \<Rightarrow> frame \<Rightarrow> string list \<Rightarrow> int \<Rightarrow> int \<Rightarrow> int \<Rightarrow>
     int \<Rightarrow> int \<Rightarrow> goint \<Rightarrow> int \<Rightarrow> string \<Rightarrow> string"
where
  "renderFrame fl f x baseY width frameHeight fontSize totalSamples depth scheme =
     (if width < 1 \<or> val f = 0 then []
      else
        let y = baseY - depth * frameHeight;
            out1 = rectText x y width frameHeight (frameColor depth scheme);
            out2 = (if width > 40
                    then (let label = frameLabel (name f) width
                          in if label \<noteq> [] then labelText x y label else [])
                    else []);
            pctStr = fmtPct fl (val f) totalSamples;
            out3 = titleText f pctStr;
            childNames = sort (map fst (children f))
        in out1 @ out2 @ out3 @
           renderChildren fl f childNames x baseY width frameHeight fontSize
             totalSamples depth scheme)"
| "renderChildren fl f [] childX baseY width frameHeight fontSize totalSamples depth
     scheme = []"
| "renderChildren fl f (nm # names) childX baseY width frameHeight fontSize
     totalSamples depth scheme =
     (case map_of (children f) nm of
        None \<Rightarrow> []
      | Some child \<Rightarrow>
          let cw = childWidth fl width (val child) (val f)
          in renderFrame fl child childX baseY cw frameHeight fontSize totalSamples
               (depth + 1) scheme @
             renderChildren fl f names (childX + cw) baseY width frameHeight fontSize
               totalSamples depth scheme)"
  by pat_completeness auto
termination
proof (relation "inv_image (less_than <*lex*> less_than <*lex*> less_than)
    (\<lambda>a. case a of
        Inl (p, f, r) \<Rightarrow> (size f, Suc 0, 0)
      | Inr (p, f, names, r) \<Rightarrow> (size f, 0, length names))")
  show "wf (inv_image (less_than <*lex*> less_than <*lex*> less_than)
    (\<lambda>a. case a of
        Inl (p, f, r) \<Rightarrow> (size f, Suc 0, 0)
      | Inr (p, f, names, r) \<Rightarrow> (size f, 0::nat, length names)))"
    by (intro wf_inv_image wf_lex_prod wf_less_than)
next
  fix f :: frame and nm child
  assume "map_of (children f) nm = Some child"
  then have "size child < size f"
    using size_child [of "children f" nm child "name f" "val f"] by simp
  then show "\<And>fl names childX baseY width frameHeight fontSize totalSamples depth
      scheme x.
      (Inl (fl, child, childX, baseY, x, frameHeight, fontSize, totalSamples,
            depth + 1, scheme),
       Inr (fl, f, nm # names, childX, baseY, width, frameHeight, fontSize,
            totalSamples, depth, scheme))
      \<in> inv_image (less_than <*lex*> less_than <*lex*> less_than)
          (\<lambda>a. case a of
              Inl (p, f, r) \<Rightarrow> (size f, Suc 0, 0)
            | Inr (p, f, names, r) \<Rightarrow> (size f, 0, length names))"
    by simp
qed auto

declare renderFrame.simps [simp del] renderChildren.simps [simp del]

definition svgHeader :: "SVGOptions \<Rightarrow> int \<Rightarrow> goint \<Rightarrow> string" where
  "svgHeader opts fontSize totalSamples =
       ''<?xml version='' @ dq @ ''1.0'' @ dq @ '' standalone='' @ dq @ ''no'' @
       dq @ ''?>'' @ nl @ ''<!DOCTYPE svg PUBLIC '' @ dq @
       ''-//W3C//DTD SVG 1.1//EN'' @ dq @ '' '' @ dq @
       ''http://www.w3.org/Graphics/SVG/1.1/DTD/svg1.1.dtd'' @ dq @ ''>'' @ nl @
       ''<svg version='' @ dq @ ''1.1'' @ dq @ '' width='' @ dq @
       fmt_d (Width opts) @ dq @ '' height='' @ dq @ fmt_d (Height opts) @ dq @
       '' xmlns='' @ dq @ ''http://www.w3.org/2000/svg'' @ dq @ ''>'' @ nl @
       ''<style>'' @ nl @
       ''  .func:hover { stroke:black; stroke-width:0.5; cursor:pointer; }'' @ nl @
       ''  text { font-family: monospace; font-size: '' @ fmt_d fontSize @
       ''px; }'' @ nl @ ''</style>'' @ nl @ ''<rect x='' @ dq @ ''0'' @ dq @
       '' y='' @ dq @ ''0'' @ dq @ '' width='' @ dq @ fmt_d (Width opts) @ dq @
       '' height='' @ dq @ fmt_d (Height opts) @ dq @ '' fill='' @ dq @
       ''white'' @ dq @ ''/>'' @ nl @ ''<text x='' @ dq @
       fmt_d (Width opts sdiv 2) @ dq @ '' y='' @ dq @ ''20'' @ dq @
       '' text-anchor='' @ dq @ ''middle'' @ dq @ '' style='' @ dq @
       ''font-size:16px; font-weight:bold;'' @ dq @ ''>'' @
       EscapeString (Title opts) @ ''</text>'' @ nl @ ''<text x='' @ dq @
       fmt_d (Width opts sdiv 2) @ dq @ '' y='' @ dq @ ''35'' @ dq @
       '' text-anchor='' @ dq @ ''middle'' @ dq @ '' style='' @ dq @
       ''font-size:12px; fill:#666;'' @ dq @ ''>('' @ fmt_d (sint totalSamples) @
       '' samples)</text>'' @ nl"

datatype error = NoSamples

text \<open>
  Lines 87 to 123, what \<open>GenerateSVG\<close> does with the tree once \<open>totalSamples\<close> is
  known not to be zero: the text written to \<open>svg\<close>.  \<open>opts\<close> has its width set.
\<close>

definition writeSVG :: "float64ops \<Rightarrow> frame \<Rightarrow> goint \<Rightarrow> SVGOptions \<Rightarrow> string" where
  "writeSVG fl root totalSamples opts0 =
     (let frameHeight = 16;
          fontSize = 12;
          maxDepth = getMaxDepth root 0;
          chartHeight = (maxDepth + 2) * frameHeight;
          headerHeight = 40;
          totalHeight = chartHeight + headerHeight + 20;
          opts = (if Height opts0 = 0 then opts0\<lparr>Height := totalHeight\<rparr> else opts0);
          margin = 10;
          chartWidth = Width opts - 2 * margin;
          baseY = Height opts - 20
      in svgHeader opts fontSize totalSamples @
         renderFrame fl root margin baseY chartWidth frameHeight fontSize totalSamples 0
           (ColorScheme opts) @
         ''</svg>'' @ nl)"

text \<open>
  \<open>GenerateSVG\<close> returns the text written to the writer \<open>svg\<close> and the error
  (\<open>None\<close> is Go's \<open>nil\<close>).  Errors of the writer itself are dropped by the code.
\<close>

definition GenerateSVG :: "float64ops \<Rightarrow> string \<Rightarrow> SVGOptions \<Rightarrow> string \<times> error option" where
  "GenerateSVG fl collapsed opts0 =
     (let opts = (if Width opts0 = 0 then opts0\<lparr>Width := 1200\<rparr> else opts0);
          (root, totalSamples) = parseCollapsed collapsed
      in if totalSamples = 0 then ([], Some NoSamples)
         else (writeSVG fl root totalSamples opts, None))"

section \<open>Folding the raw stacks: \<open>CollapsePerf\<close>, \<open>CollapseDtrace\<close>\<close>

text \<open>
  \<open>stacks := make(map[string]int)\<close> is an association list from keys to counters, a new
  key going to its end.  \<open>stacks[key]\<close> is 0 for a key the map does not have.
\<close>

type_synonym stacks = "(string \<times> goint) list"

definition lookup0 :: "stacks \<Rightarrow> string \<Rightarrow> goint" where
  "lookup0 stacks k = (case map_of stacks k of None \<Rightarrow> 0 | Some v \<Rightarrow> v)"

text \<open>\<open>stacks[key] += n\<close>; \<open>stacks[key]++\<close> is the case \<open>n = 1\<close>.\<close>

definition addCount :: "stacks \<Rightarrow> string \<Rightarrow> goint \<Rightarrow> stacks" where
  "addCount stacks key n = AList.update key (lookup0 stacks key + n) stacks"

text \<open>\<open>for i, j := 0, len(currentStack)-1; i < j; i, j = i+1, j-1 { swap }\<close>
  (the loop runs only on a stack that is not empty).\<close>

function reverseLoop :: "string list \<Rightarrow> nat \<Rightarrow> nat \<Rightarrow> string list" where
  "reverseLoop currentStack i j =
     (if i < j
      then reverseLoop (currentStack[i := currentStack ! j, j := currentStack ! i])
             (i + 1) (j - 1)
      else currentStack)"
  by pat_completeness auto
termination
  by (relation "measure (\<lambda>(currentStack, i, j). j - i)") auto

declare reverseLoop.simps [simp del]

definition writeCollapsed :: "stacks \<Rightarrow> string" where
  "writeCollapsed stacks =
     (let keys = sort (map fst stacks)
      in concat (map (\<lambda>k. k @ '' '' @ fmt_d (sint (lookup0 stacks k)) @ nl) keys))"

text \<open>The body of the loop of \<open>CollapsePerf\<close> (lines 20 to 49), on the state
  \<open>(stacks, currentStack)\<close>.\<close>

definition perfLine :: "stacks \<times> string list \<Rightarrow> string \<Rightarrow> stacks \<times> string list" where
  "perfLine st line =
     (let stacks = fst st;
          currentStack = snd st;
          trimmed = TrimSpace line
      in if trimmed = [] then
           (if length currentStack > 0 then
              (let reversed = reverseLoop currentStack 0 (length currentStack - 1);
                   key = Join reversed '';''
               in (addCount stacks key 1, []))
            else st)
         else if HasPrefix line [CHR 0x09] \<or> HasPrefix line ''  '' then
           (let fields = Fields trimmed
            in if length fields \<ge> 2 then
                 (let funcName = fields ! 1;
                      idx = Index funcName CHR ''+'';
                      funcName = (if idx > 0 then take (nat idx) funcName else funcName)
                  in (stacks, currentStack @ [funcName]))
               else st)
         else st)"

definition CollapsePerf :: "string \<Rightarrow> string" where
  "CollapsePerf r =
     (let (stacks, currentStack) = foldl perfLine ([], []) (scanLines r);
          stacks =
            (if length currentStack > 0 then
               (let reversed = reverseLoop currentStack 0 (length currentStack - 1);
                    key = Join reversed '';''
                in addCount stacks key 1)
             else stacks)
      in writeCollapsed stacks)"

definition isCountLine :: "string \<Rightarrow> bool" where
  "isCountLine s = (list_all isDigit s \<and> length s > 0)"

text \<open>The body of the loop of \<open>CollapseDtrace\<close> (lines 71 to 106).\<close>

definition dtraceLine :: "stacks \<times> string list \<Rightarrow> string \<Rightarrow> stacks \<times> string list" where
  "dtraceLine st line =
     (let stacks = fst st;
          currentStack = snd st;
          trimmed = TrimSpace line
      in if trimmed = [] then
           (if length currentStack > 0 then
              (let key = Join currentStack '';''
               in (addCount stacks key 1, []))
            else st)
         else if isCountLine trimmed then
           (if length currentStack > 0 then
              (let key = Join currentStack '';'';
                   cnt = (case Sscanf_d trimmed of None \<Rightarrow> 1 | Some n \<Rightarrow> n)
               in (addCount stacks key cnt, []))
            else st)
         else
           (let funcName = trimmed;
                idx = Index funcName CHR 0x60;
                funcName = (if idx \<ge> 0 then drop (nat idx + 1) funcName else funcName);
                idx = Index funcName CHR ''+'';
                funcName = (if idx > 0 then take (nat idx) funcName else funcName)
            in (stacks, currentStack @ [funcName])))"

definition CollapseDtrace :: "string \<Rightarrow> string" where
  "CollapseDtrace r =
     (let (stacks, currentStack) = foldl dtraceLine ([], []) (scanLines r)
      in writeCollapsed stacks)"

section \<open>A folded input used in the examples\<close>

definition foldedExample :: string where
  "foldedExample = ''a;b 2'' @ nl @ ''a;c 1'' @ nl"

definition treeExample :: frame where
  "treeExample =
     Frame ''root'' 3
       [(''a'', Frame ''a'' 3 [(''b'', Frame ''b'' 2 []), (''c'', Frame ''c'' 1 [])])]"

section \<open>Notions for the properties of the tree\<close>

text \<open>The sum of the values of the children of a node.\<close>

definition childSum :: "frame \<Rightarrow> goint" where
  "childSum f = sum_list (map (\<lambda>p. val (snd p)) (children f))"

text \<open>The node reached from \<open>f\<close> along a path of frame names.\<close>

fun nodeAt :: "frame \<Rightarrow> string list \<Rightarrow> frame option" where
  "nodeAt f [] = Some f"
| "nodeAt f (k # ks) = (case map_of (children f) k of None \<Rightarrow> None | Some c \<Rightarrow> nodeAt c ks)"

text \<open>
  The record a line of the folded input stands for: the frames of its stack and its count,
  read as lines 56 to 69 read them; \<open>None\<close> for a line that is skipped.  The records of
  an input are those of the lines the scanner delivers, in order.
\<close>

definition lineRecord :: "string \<Rightarrow> (string list \<times> goint) option" where
  "lineRecord line =
     (case SplitN2 line CHR '' '' of
        [stack, rest] \<Rightarrow> Some (Split stack CHR '';'', scanCount rest)
      | _ \<Rightarrow> None)"

definition records :: "string \<Rightarrow> (string list \<times> goint) list" where
  "records collapsed = List.map_filter lineRecord (scanLines collapsed)"

text \<open>The sum of the counts of the records whose stack is exactly \<open>path\<close>.\<close>

definition endCount :: "string list \<Rightarrow> (string list \<times> goint) list \<Rightarrow> goint" where
  "endCount path recs = sum_list (map snd (filter (\<lambda>r. fst r = path) recs))"

text \<open>What lines 71 to 80 do to the node they start from, and the part of a node's
  value that its children do not account for.\<close>

definition bumpFrame :: "string list \<Rightarrow> goint \<Rightarrow> frame \<Rightarrow> frame" where
  "bumpFrame fr c f = Frame (name f) (val f + c) (addStack fr c (children f))"

definition selfAt :: "frame \<Rightarrow> string list \<Rightarrow> goint" where
  "selfAt f p = (case nodeAt f p of None \<Rightarrow> 0 | Some n \<Rightarrow> val n - childSum n)"

definition foldedEnding :: string where
  "foldedEnding = ''a 5'' @ nl @ ''a;b 3'' @ nl"

section \<open>Notions for the layout\<close>

text \<open>
  The rectangles the loop of lines 172 to 180 gives to the children of \<open>f\<close>: the
  child, its \<open>childX\<close> and its \<open>childWidth\<close>, for the names in the order of the loop.
\<close>

fun childRects :: "float64ops \<Rightarrow> frame \<Rightarrow> string list \<Rightarrow> int \<Rightarrow> int \<Rightarrow> (frame \<times> int \<times> int) list" where
  "childRects fl f [] childX width = []"
| "childRects fl f (nm # names) childX width =
     (case map_of (children f) nm of
        None \<Rightarrow> []
      | Some child \<Rightarrow>
          let cw = childWidth fl width (val child) (val f)
          in (child, childX, cw) # childRects fl f names (childX + cw) width)"

text \<open>The widths of the rectangles of the children of a node that is drawn
  \<open>width\<close> pixels wide, in the order in which \<open>renderFrame\<close> visits them.\<close>

definition childWidths :: "float64ops \<Rightarrow> frame \<Rightarrow> int \<Rightarrow> int list" where
  "childWidths fl f width =
     map (\<lambda>r. snd (snd r)) (childRects fl f (sort (map fst (children f))) 0 width)"

text \<open>The proportional shares of the same children, before line 175 raises a share
  below one pixel to one pixel.\<close>

definition childShares :: "float64ops \<Rightarrow> frame \<Rightarrow> int \<Rightarrow> int list" where
  "childShares fl f width =
     map (\<lambda>r. scaleWidth fl width (val (fst r)) (val f))
       (childRects fl f (sort (map fst (children f))) 0 width)"

text \<open>
  A tree whose values did not overflow and came from positive counts: no value is negative,
  the keys of a \<open>children\<close> map are distinct, every child has a positive value, and the
  values of the children of a node sum to at most the value of the node.
\<close>

fun good :: "frame \<Rightarrow> bool" where
  "good (Frame nm v ch) =
     (0 \<le> sint v \<and> distinct (map fst ch) \<and>
      (\<forall>c \<in> set (map snd ch). 0 < sint (val c) \<and> good c) \<and>
      sum_list (map (\<lambda>c. sint (val c)) (map snd ch)) \<le> sint v)"

text \<open>Some value of the parameter, for the examples.\<close>

definition floatsExample :: float64ops where
  "floatsExample = \<lparr>fmtPct = (\<lambda>v t. ''?''), scaleFloat = (\<lambda>w c f. 0)\<rparr>"

definition foldedCancel :: string where
  "foldedCancel = ''a 5'' @ nl @ ''b -5'' @ nl"

definition foldedNarrow :: string where
  "foldedNarrow = ''a;x 1'' @ nl @ ''a;y 1'' @ nl @ ''b 2358'' @ nl"

definition foldedEven :: string where
  "foldedEven = ''x 1'' @ nl @ ''y 1'' @ nl"

section \<open>Notions for the order of a map\<close>

text \<open>
  Two values of \<^typ>\<open>frame\<close> stand for the same tree of Go maps when they differ only
  in the order in which the entries of the \<open>children\<close> maps are listed: same name and
  value, the same distinct keys, and under each key two frames that again stand for the
  same tree.  The order of the list is the order in which \<open>range\<close> yields the entries.
\<close>

fun sameTree :: "frame \<Rightarrow> frame \<Rightarrow> bool" where
  "sameTree (Frame nm v ch) g =
     (nm = name g \<and> v = val g \<and>
      distinct (map fst ch) \<and> distinct (map fst (children g)) \<and>
      set (map fst ch) = set (map fst (children g)) \<and>
      (\<forall>p \<in> set ch.
         case map_of (children g) (fst p) of
           None \<Rightarrow> False
         | Some c \<Rightarrow> sameTree (snd p) c))"

definition treeSwapped :: frame where
  "treeSwapped =
     Frame ''root'' 3
       [(''a'', Frame ''a'' 3 [(''c'', Frame ''c'' 1 []), (''b'', Frame ''b'' 2 [])])]"

section \<open>Notions for the order of the records\<close>

text \<open>
  A raw input made of records: each record is a block of text (its lines) and is followed
  by a blank line, the delimiter both folders know.
\<close>

definition rawText :: "string list \<Rightarrow> string" where
  "rawText blocks = concat (map (\<lambda>b. b @ nl @ nl) blocks)"

text \<open>
  A list of increments \<open>stacks[key] += n\<close> applied in order, and the increments a run
  of the loop body makes: the body is run from an empty map on every line, which leaves
  in the map exactly what the line adds.  \<open>addCountM\<close> is one increment on the map as a
  function.
\<close>

definition applyIncs :: "(string \<times> goint) list \<Rightarrow> stacks \<Rightarrow> stacks" where
  "applyIncs incs stacks = fold (\<lambda>p m. addCount m (fst p) (snd p)) incs stacks"

fun logSteps :: "(stacks \<times> string list \<Rightarrow> string \<Rightarrow> stacks \<times> string list) \<Rightarrow>
    string list \<Rightarrow> string list \<Rightarrow> (string \<times> goint) list \<times> string list" where
  "logSteps step cs [] = ([], cs)"
| "logSteps step cs (l # ls) =
     (let st = step ([], cs) l; r = logSteps step (snd st) ls
      in (fst st @ fst r, snd r))"

definition addCountM :: "string \<times> goint \<Rightarrow> (string \<rightharpoonup> goint) \<Rightarrow> (string \<rightharpoonup> goint)" where
  "addCountM p m = m(fst p \<mapsto> (case m (fst p) of None \<Rightarrow> 0 | Some v \<Rightarrow> v) + snd p)"

definition perfA :: string where
  "perfA = [CHR 0x09] @ ''0 funcB'' @ nl @ [CHR 0x09] @ ''0 funcA''"

definition perfZ :: string where
  "perfZ = [CHR 0x09] @ ''0 funcZ''"

text \<open>Lines 52 to 59 of collapse.go, on the state the loop of \<open>CollapsePerf\<close> ends in.\<close>

definition perfFinal :: "stacks \<times> string list \<Rightarrow> stacks" where
  "perfFinal st =
     (if length (snd st) > 0
      then addCount (fst st)
             (Join (reverseLoop (snd st) 0 (length (snd st) - 1)) '';'') 1
      else fst st)"

text \<open>
  A raw input made of blocks of lines, each followed by a newline only.  A block is closed
  for \<open>CollapseDtrace\<close> when the loop, run on the block alone, holds no frame at its end:
  the last record of the block is followed by its count line or by a blank line.
\<close>

definition linesText :: "string list \<Rightarrow> string" where
  "linesText blocks = concat (map (\<lambda>b. b @ nl) blocks)"

definition dtraceClosed :: "string \<Rightarrow> bool" where
  "dtraceClosed b = (snd (foldl dtraceLine ([], []) (scanLines (b @ nl))) = [])"

text \<open>
  The records a folder reads from an input, as pairs of a key and a count, in the order
  in which it adds them to its map: those the loop adds and, for \<open>CollapsePerf\<close>, the
  one that lines 52 to 59 add after the loop.
\<close>

definition perfRecords :: "string \<Rightarrow> (string \<times> goint) list" where
  "perfRecords r =
     (let (recs, currentStack) = logSteps perfLine [] (scanLines r)
      in if length currentStack > 0
         then recs @ [(Join (reverseLoop currentStack 0 (length currentStack - 1)) '';'', 1)]
         else recs)"

definition dtraceRecords :: "string \<Rightarrow> (string \<times> goint) list" where
  "dtraceRecords r = fst (logSteps dtraceLine [] (scanLines r))"

text \<open>
  The folded text of a list of records, as the specification describes it: one line
  \<open>key count\<close> for every key, the keys in ascending order, the count of a key being the
  sum of the counts of its records.
\<close>

definition foldedKeys :: "(string \<times> goint) list \<Rightarrow> string list" where
  "foldedKeys recs = sort (remdups (map fst recs))"

definition foldedCount :: "(string \<times> goint) list \<Rightarrow> string \<Rightarrow> goint" where
  "foldedCount recs k = sum_list (map snd (filter (\<lambda>r. fst r = k) recs))"

definition foldedText :: "(string \<times> goint) list \<Rightarrow> string" where
  "foldedText recs =
     concat (map (\<lambda>k. k @ '' '' @ fmt_d (sint (foldedCount recs k)) @ nl) (foldedKeys recs))"

text \<open>Inputs of the examples: a line of 64 KiB, two records of one frame with no
  delimiter after the second, and two records closed by their count lines.\<close>

definition longLine :: string where
  "longLine = replicate 65536 (CHR ''x'')"

definition dtraceAB :: string where
  "dtraceAB = ''a'' @ nl @ nl @ ''b''"

definition dtraceBA :: string where
  "dtraceBA = ''b'' @ nl @ nl @ ''a''"

definition dtraceA :: string where
  "dtraceA = ''funcA'' @ nl @ ''funcB'' @ nl @ ''3''"

definition dtraceZ :: string where
  "dtraceZ = ''funcZ'' @ nl @ ''2''"

section \<open>Notions for the count field of a record\<close>

text \<open>
  The text of a count field is described by its characters: \<open>blank\<close> is an ASCII
  white-space character other than the newline, \<open>spaceLead\<close> a byte that starts the
  encoding of some white-space rune.
\<close>

definition blank :: "char \<Rightarrow> bool" where
  "blank c = (c \<in> {CHR 0x09, CHR 0x0B, CHR 0x0C, CHR 0x0D, CHR 0x20})"

definition spaceLead :: "char \<Rightarrow> bool" where
  "spaceLead c = (c \<in> set (map hd spaceRunes))"

section \<open>Evaluation and basic facts\<close>

lemmas go_eval =
  spaceLen_def spaceLenEnd_def spaceRunes_def HasPrefix_def HasSuffix_def TrimSpace_def
  Fields_def Index_def Split_def SplitN2_def isDigit_def digitVal_def decimal_def
  Sscanf_d_def digitChar_def fmt_d_def MaxScanTokenSize_def dropCR_def scanLines_def
  nl_def dq_def TrimLeft.simps TrimRight.simps fieldsFrom.simps SkipSpace.simps
  reverseLoop.simps natDigits.simps

lemma SplitN2_no_sep: "sep \<notin> set s \<Longrightarrow> SplitN2 s sep = [s]"
  by (simp add: SplitN2_def Index_def)

lemma SplitN2_sep:
  "sep \<in> set s \<Longrightarrow>
   SplitN2 s sep = [takeWhile (\<lambda>x. x \<noteq> sep) s, drop 1 (dropWhile (\<lambda>x. x \<noteq> sep) s)]"
  by (simp add: SplitN2_def Index_def dropWhile_eq_drop takeWhile_eq_take [symmetric])

lemma scanCount_nonzero: "scanCount s \<noteq> 0"
  by (simp add: scanCount_def Let_def)

lemma parse_example:
  "parseCollapsed foldedExample =
     (treeExample, 3)"
proof -
  have l: "scanLines foldedExample = [''a;b 2'', ''a;c 1'']"
    by (simp add: foldedExample_def scanLines_def nl_def MaxScanTokenSize_def dropCR_def)
  have c1: "scanCount ''2'' = 2" by (simp add: scanCount_def go_eval)
  have c2: "scanCount ''1'' = 1" by (simp add: scanCount_def go_eval)
  have s1: "\<And>st. addLine st ''a;b 2'' =
      (Frame (name (fst st)) (val (fst st) + 2) (addStack [''a'', ''b''] 2 (children (fst st))),
       snd st + 2)"
    by (simp add: addLine_def SplitN2_def Index_def Split_def c1 Let_def)
  have s2: "\<And>st. addLine st ''a;c 1'' =
      (Frame (name (fst st)) (val (fst st) + 1) (addStack [''a'', ''c''] 1 (children (fst st))),
       snd st + 1)"
    by (simp add: addLine_def SplitN2_def Index_def Split_def c2 Let_def)
  show ?thesis
    unfolding parseCollapsed_def l by (simp add: s1 s2 newFrame_def treeExample_def)
qed

lemma foldl_addLine_skip:
  "\<forall>l \<in> set ls. CHR '' '' \<notin> set l \<Longrightarrow> foldl addLine st ls = st"
  by (induction ls arbitrary: st) (simp_all add: addLine_def SplitN2_no_sep)

lemma writeSVG_nonempty: "writeSVG fl root tot opts \<noteq> []"
  by (simp add: writeSVG_def svgHeader_def Let_def)

section \<open>Folding\<close>

text \<open>
  Claim C6.  Three copies of the leaf-first record \<open>funcC\<close>, \<open>funcB\<close>, \<open>funcA\<close>
  (each line a tab, an address, the symbol with its offset and the module; a blank line
  after each record) fold to the single line \<open>funcA;funcB;funcC 3\<close>.
\<close>

theorem CollapsePerf_example:
  "(let rec = [CHR 0x09] @ '' 0 funcC+0x10 (mod)'' @ nl @
              [CHR 0x09] @ '' 0 funcB+0x4 (mod)'' @ nl @
              [CHR 0x09] @ '' 0 funcA+0x0 (mod)'' @ nl @ nl
    in CollapsePerf (rec @ rec @ rec)) = ''funcA;funcB;funcC 3'' @ nl"
proof -
  define l1 where "l1 = [CHR 0x09] @ '' 0 funcC+0x10 (mod)''"
  define l2 where "l2 = [CHR 0x09] @ '' 0 funcB+0x4 (mod)''"
  define l3 where "l3 = [CHR 0x09] @ '' 0 funcA+0x0 (mod)''"
  define rec where "rec = l1 @ nl @ l2 @ nl @ l3 @ nl @ nl"
  have lines: "scanLines (rec @ rec @ rec) = [l1, l2, l3, [], l1, l2, l3, [], l1, l2, l3, []]"
    by (simp add: rec_def l1_def l2_def l3_def scanLines_def nl_def MaxScanTokenSize_def
          dropCR_def)
  have s1: "\<And>st. perfLine st l1 = (fst st, snd st @ [''funcC''])"
    by (simp add: l1_def go_eval perfLine_def Let_def)
  have s2: "\<And>st. perfLine st l2 = (fst st, snd st @ [''funcB''])"
    by (simp add: l2_def go_eval perfLine_def Let_def)
  have s3: "\<And>st. perfLine st l3 = (fst st, snd st @ [''funcA''])"
    by (simp add: l3_def go_eval perfLine_def Let_def)
  have s4: "\<And>stacks. perfLine (stacks, [''funcC'', ''funcB'', ''funcA'']) [] =
      (addCount stacks ''funcA;funcB;funcC'' 1, [])"
    by (simp add: go_eval perfLine_def Let_def)
  have run: "foldl perfLine ([], []) (scanLines (rec @ rec @ rec)) =
      ([(''funcA;funcB;funcC'', 3)], [])"
    unfolding lines by (simp add: s1 s2 s3 s4 addCount_def lookup0_def)
  have out: "CollapsePerf (rec @ rec @ rec) = ''funcA;funcB;funcC 3'' @ nl"
    unfolding CollapsePerf_def run
    by (simp add: writeCollapsed_def lookup0_def fmt_d_def digitChar_def natDigits.simps)
  then show ?thesis
    by (simp add: rec_def l1_def l2_def l3_def Let_def)
qed

section \<open>Folding does not depend on the order of the records\<close>

lemma scanFrom_block:
  "\<forall>l \<in> set (splitFrom cur (CHR 0x0A) b). length l < MaxScanTokenSize \<Longrightarrow>
     scanFrom cur (b @ nl @ rest) = scanFrom cur (b @ nl) @ scanFrom [] rest"
proof (induction b arbitrary: cur)
  case Nil
  then show ?case by (simp add: nl_def)
next
  case (Cons c b)
  show ?case
  proof (cases "c = CHR 0x0A")
    case True
    then have "length cur < MaxScanTokenSize"
      and "\<forall>l \<in> set (splitFrom [] (CHR 0x0A) b). length l < MaxScanTokenSize"
      using Cons.prems by simp_all
    then show ?thesis
      using True Cons.IH [of "[]"] by simp
  next
    case False
    then have "\<forall>l \<in> set (splitFrom (cur @ [c]) (CHR 0x0A) b). length l < MaxScanTokenSize"
      using Cons.prems by simp
    then show ?thesis
      using False Cons.IH [of "cur @ [c]"] by simp
  qed
qed

lemma scanLines_rawText:
  "\<forall>b \<in> set blocks. \<forall>l \<in> set (Split b (CHR 0x0A)). length l < MaxScanTokenSize \<Longrightarrow>
     scanLines (rawText blocks) = concat (map (\<lambda>b. scanLines (b @ nl) @ [[]]) blocks)"
proof (induction blocks)
  case Nil
  then show ?case by (simp add: rawText_def scanLines_def)
next
  case (Cons b blocks)
  have f: "\<forall>l \<in> set (splitFrom [] (CHR 0x0A) b). length l < MaxScanTokenSize"
    using Cons.prems by (simp add: Split_def)
  have "scanLines (rawText (b # blocks)) = scanFrom [] (b @ nl @ (nl @ rawText blocks))"
    by (simp add: rawText_def scanLines_def)
  also have "\<dots> = scanFrom [] (b @ nl) @ scanFrom [] (nl @ rawText blocks)"
    by (rule scanFrom_block [OF f])
  also have "scanFrom [] (nl @ rawText blocks) = [] # scanLines (rawText blocks)"
    by (simp add: nl_def scanLines_def MaxScanTokenSize_def dropCR_def)
  finally show ?case
    using Cons by (simp add: scanLines_def)
qed


lemma TrimSpace_Nil: "TrimSpace [] = []"
  by (simp add: TrimSpace_def TrimLeft.simps TrimRight.simps spaceLen_def spaceLenEnd_def
      spaceRunes_def HasPrefix_def HasSuffix_def)

lemma perfLine_incs:
  "perfLine (m, cs) l = (applyIncs (fst (perfLine ([], cs) l)) m, snd (perfLine ([], cs) l))"
  by (simp add: perfLine_def applyIncs_def addCount_def lookup0_def Let_def)

lemma dtraceLine_incs:
  "dtraceLine (m, cs) l =
     (applyIncs (fst (dtraceLine ([], cs) l)) m, snd (dtraceLine ([], cs) l))"
  by (simp add: dtraceLine_def applyIncs_def addCount_def lookup0_def Let_def)

lemma perfLine_blank: "snd (perfLine (m, cs) []) = []"
  by (simp add: perfLine_def TrimSpace_Nil Let_def)

lemma dtraceLine_blank: "snd (dtraceLine (m, cs) []) = []"
  by (simp add: dtraceLine_def TrimSpace_Nil Let_def)

lemma applyIncs_append: "applyIncs (a @ b) m = applyIncs b (applyIncs a m)"
  by (simp add: applyIncs_def)

lemma foldl_log:
  assumes "\<And>m cs l. step (m, cs) l =
      (applyIncs (fst (step ([], cs) l)) m, snd (step ([], cs) l))"
  shows "foldl step (m, cs) ls =
      (applyIncs (fst (logSteps step cs ls)) m, snd (logSteps step cs ls))"
proof (induction ls arbitrary: m cs)
  case Nil
  show ?case by (simp add: applyIncs_def)
next
  case (Cons l ls)
  have "foldl step (m, cs) (l # ls) =
      foldl step (applyIncs (fst (step ([], cs) l)) m, snd (step ([], cs) l)) ls"
    using assms [of m cs l] by simp
  then show ?case
    by (simp add: Cons.IH Let_def applyIncs_append)
qed

lemma log_append:
  "logSteps step cs (xs @ ys) =
     (fst (logSteps step cs xs) @ fst (logSteps step (snd (logSteps step cs xs)) ys),
      snd (logSteps step (snd (logSteps step cs xs)) ys))"
  by (induction xs arbitrary: cs) (simp_all add: Let_def)

lemma log_blocks:
  assumes "\<And>cs. snd (step ([], cs) []) = []"
  shows "logSteps step [] (concat (map (\<lambda>b. L b @ [[]]) blocks)) =
      (concat (map (\<lambda>b. fst (logSteps step [] (L b @ [[]]))) blocks), [])"
proof (induction blocks)
  case Nil
  show ?case by simp
next
  case (Cons b blocks)
  have e: "snd (logSteps step [] (L b @ [[]])) = []"
    by (simp add: log_append Let_def assms)
  have c: "concat (map (\<lambda>b. L b @ [[]]) (b # blocks)) =
      (L b @ [[]]) @ concat (map (\<lambda>b. L b @ [[]]) blocks)"
    by simp
  show ?case
    unfolding c log_append [of step "[]" "L b @ [[]]"] e Cons.IH
    by simp
qed

lemma map_of_addCount:
  "map_of (addCount s (fst p) (snd p)) = addCountM p (map_of s)"
  by (simp add: addCount_def lookup0_def addCountM_def update_conv')

lemma map_of_applyIncs: "map_of (applyIncs incs s) = fold addCountM incs (map_of s)"
  by (induction incs arbitrary: s) (simp_all add: applyIncs_def map_of_addCount)

lemma addCountM_commute: "addCountM p \<circ> addCountM q = addCountM q \<circ> addCountM p"
proof (rule ext)
  fix m
  show "(addCountM p \<circ> addCountM q) m = (addCountM q \<circ> addCountM p) m"
  proof (cases "fst p = fst q")
    case True
    then show ?thesis
      by (simp add: addCountM_def ac_simps split: option.splits)
  next
    case False
    then show ?thesis
      by (auto simp: addCountM_def fun_upd_twist)
  qed
qed

lemma distinct_addCount: "distinct (map fst s) \<Longrightarrow> distinct (map fst (addCount s k n))"
  by (simp add: addCount_def distinct_update)

lemma distinct_applyIncs:
  "distinct (map fst s) \<Longrightarrow> distinct (map fst (applyIncs incs s))"
  by (induction incs arbitrary: s) (simp_all add: applyIncs_def distinct_addCount)

lemma writeCollapsed_cong:
  assumes "distinct (map fst s)" "distinct (map fst s')" "map_of s = map_of s'"
  shows "writeCollapsed s = writeCollapsed s'"
proof -
  have "set (map fst s) = set (map fst s')"
    using assms(3) by (metis dom_map_of_conv_image_fst set_map)
  then have "mset (map fst s) = mset (map fst s')"
    using assms(1,2) by (simp only: set_eq_iff_mset_eq_distinct)
  then have "sort (map fst s) = sort (map fst s')"
    by (metis mset_sort properties_for_sort sorted_sort)
  then show ?thesis
    by (simp add: writeCollapsed_def lookup0_def assms(3))
qed

lemma fold_incs_perm:
  assumes "mset blocks = mset blocks'"
  shows "fold addCountM (concat (map h blocks)) = fold addCountM (concat (map h blocks'))"
proof -
  have "mset (concat (map h blocks)) = mset (concat (map h blocks'))"
  proof -
    have "\<And>bs. mset (concat (map h bs)) = sum_mset (image_mset (\<lambda>b. mset (h b)) (mset bs))"
      by (induct_tac bs) simp_all
    then show ?thesis by (simp add: assms)
  qed
  then show ?thesis
    by (rule fold_multiset_equiv [rotated]) (simp add: addCountM_commute)
qed


lemma fold_blocks:
  fixes step :: "stacks \<times> string list \<Rightarrow> string \<Rightarrow> stacks \<times> string list"
  assumes P: "\<And>m cs l. step (m, cs) l =
      (applyIncs (fst (step ([], cs) l)) m, snd (step ([], cs) l))"
    and B: "\<And>cs. snd (step ([], cs) []) = []"
    and F: "\<forall>b \<in> set blocks. \<forall>l \<in> set (Split b (CHR 0x0A)). length l < MaxScanTokenSize"
  shows "foldl step ([], []) (scanLines (rawText blocks)) =
      (applyIncs
         (concat (map (\<lambda>b. fst (logSteps step [] (scanLines (b @ nl) @ [[]]))) blocks)) [],
       [])"
  unfolding scanLines_rawText [OF F] foldl_log [of step, OF P]
    log_blocks [of step "\<lambda>b. scanLines (b @ nl)", OF B]
  by simp

lemma perm_blocks:
  fixes step :: "stacks \<times> string list \<Rightarrow> string \<Rightarrow> stacks \<times> string list"
  assumes P: "\<And>m cs l. step (m, cs) l =
      (applyIncs (fst (step ([], cs) l)) m, snd (step ([], cs) l))"
    and B: "\<And>cs. snd (step ([], cs) []) = []"
    and F: "\<forall>b \<in> set blocks. \<forall>l \<in> set (Split b (CHR 0x0A)). length l < MaxScanTokenSize"
    and M: "mset blocks = mset blocks'"
  shows "\<exists>s s'. foldl step ([], []) (scanLines (rawText blocks)) = (s, []) \<and>
      foldl step ([], []) (scanLines (rawText blocks')) = (s', []) \<and>
      writeCollapsed s = writeCollapsed s'"
proof -
  let ?h = "\<lambda>b. fst (logSteps step [] (scanLines (b @ nl) @ [[]]))"
  have "set blocks = set blocks'" using M by (rule mset_eq_setD)
  then have F': "\<forall>b \<in> set blocks'. \<forall>l \<in> set (Split b (CHR 0x0A)).
      length l < MaxScanTokenSize"
    using F by simp
  have m: "map_of (applyIncs (concat (map ?h blocks)) []) =
      map_of (applyIncs (concat (map ?h blocks')) [])"
    by (simp only: map_of_applyIncs fold_incs_perm [OF M])
  have "writeCollapsed (applyIncs (concat (map ?h blocks)) []) =
      writeCollapsed (applyIncs (concat (map ?h blocks')) [])"
    by (rule writeCollapsed_cong [OF _ _ m]) (simp_all add: distinct_applyIncs)
  then show ?thesis
    using fold_blocks [of step, OF P B F] fold_blocks [of step, OF P B F'] by blast
qed

section \<open>The last record of the input\<close>

lemma scanFrom_trailing:
  "\<exists>n. scanFrom cur (r @ nl @ nl) = scanFrom cur r @ replicate n []"
proof (induction r arbitrary: cur)
  case Nil
  show ?case
  proof (cases "MaxScanTokenSize \<le> length cur")
    case True
    then have "scanFrom cur ([] @ nl @ nl) = scanFrom cur [] @ replicate 0 []"
      by (simp add: nl_def)
    then show ?thesis by blast
  next
    case False
    show ?thesis
    proof (cases "cur = []")
      case True
      then have "scanFrom cur ([] @ nl @ nl) = scanFrom cur [] @ replicate 2 []"
        by (simp add: nl_def MaxScanTokenSize_def dropCR_def numeral_2_eq_2)
      then show ?thesis by blast
    next
      case nonempty: False
      then have "scanFrom cur ([] @ nl @ nl) = scanFrom cur [] @ replicate 1 []"
        using False by (simp add: nl_def MaxScanTokenSize_def dropCR_def)
      then show ?thesis by blast
    qed
  qed
next
  case (Cons c r)
  show ?case
  proof (cases "c = CHR 0x0A")
    case True
    show ?thesis
    proof (cases "MaxScanTokenSize \<le> length cur")
      case over: True
      then have "scanFrom cur ((c # r) @ nl @ nl) = scanFrom cur (c # r) @ replicate 0 []"
        using True by simp
      then show ?thesis by blast
    next
      case False
      obtain n where "scanFrom [] (r @ nl @ nl) = scanFrom [] r @ replicate n []"
        using Cons.IH by blast
      then have "scanFrom cur ((c # r) @ nl @ nl) = scanFrom cur (c # r) @ replicate n []"
        using True False by simp
      then show ?thesis by blast
    qed
  next
    case False
    obtain n where "scanFrom (cur @ [c]) (r @ nl @ nl) =
        scanFrom (cur @ [c]) r @ replicate n []"
      using Cons.IH by blast
    then have "scanFrom cur ((c # r) @ nl @ nl) = scanFrom cur (c # r) @ replicate n []"
      using False by simp
    then show ?thesis by blast
  qed
qed

lemma perfLine_blank_step:
  "perfLine (stacks, cs) [] =
     (if length cs > 0
      then (addCount stacks (Join (reverseLoop cs 0 (length cs - 1)) '';'') 1, [])
      else (stacks, cs))"
  by (simp add: perfLine_def TrimSpace_Nil Let_def)

lemma CollapsePerf_final:
  "CollapsePerf r = writeCollapsed (perfFinal (foldl perfLine ([], []) (scanLines r)))"
  by (simp add: CollapsePerf_def perfFinal_def Let_def case_prod_beta)

lemma perfFinal_blank: "perfFinal (perfLine st []) = perfFinal st"
  by (cases st) (simp add: perfLine_blank_step perfFinal_def)

lemma perf_blanks: "perfFinal (foldl perfLine st (replicate n [])) = perfFinal st"
  by (induction n arbitrary: st) (simp_all add: perfFinal_blank)

lemma CollapsePerf_trailing: "CollapsePerf (r @ nl @ nl) = CollapsePerf r"
proof -
  obtain n where n: "scanLines (r @ nl @ nl) = scanLines r @ replicate n []"
    using scanFrom_trailing [of "[]" r] by (auto simp: scanLines_def)
  show ?thesis
    by (simp add: CollapsePerf_final n perf_blanks)
qed

text \<open>
  Claim C3, the last record of an input that ends without a delimiter.  \<open>CollapsePerf\<close>
  counts it (lines 52 to 59 of collapse.go): for every input, the output is the same
  with and without a closing blank line.  \<open>CollapseDtrace\<close> has no such step after
  its loop: a record that is followed by a blank line is counted, the same record at the
  end of the input is lost, with or without a final newline.
\<close>

theorem last_record_example:
  "CollapsePerf (r @ nl @ nl) = CollapsePerf r \<and>
   CollapsePerf ([CHR 0x09] @ ''0 funcB'' @ nl @ [CHR 0x09] @ ''0 funcA'' @ nl @ nl) = ''funcA;funcB 1'' @ nl \<and>
   CollapsePerf ([CHR 0x09] @ ''0 funcB'' @ nl @ [CHR 0x09] @ ''0 funcA'') = ''funcA;funcB 1'' @ nl \<and>
   CollapseDtrace (''funcX'' @ nl @ ''funcY'' @ nl @ nl) = ''funcX;funcY 1'' @ nl \<and>
   CollapseDtrace (''funcX'' @ nl @ ''funcY'' @ nl) = [] \<and>
   CollapseDtrace (''funcX'' @ nl @ ''funcY'') = []"
proof -
  define p1 where "p1 = [CHR 0x09] @ ''0 funcB''"
  define p2 where "p2 = [CHR 0x09] @ ''0 funcA''"
  have lp1: "scanLines (p1 @ nl @ p2 @ nl @ nl) = [p1, p2, []]"
    by (simp add: p1_def p2_def scanLines_def nl_def MaxScanTokenSize_def dropCR_def)
  have lp2: "scanLines (p1 @ nl @ p2) = [p1, p2]"
    by (simp add: p1_def p2_def scanLines_def nl_def MaxScanTokenSize_def dropCR_def)
  have s1: "\<And>st. perfLine st p1 = (fst st, snd st @ [''funcB''])"
    by (simp add: p1_def go_eval perfLine_def Let_def)
  have s2: "\<And>st. perfLine st p2 = (fst st, snd st @ [''funcA''])"
    by (simp add: p2_def go_eval perfLine_def Let_def)
  have s3: "perfLine ([], [''funcB'', ''funcA'']) [] = ([(''funcA;funcB'', 1)], [])"
    by (simp add: go_eval perfLine_def Let_def addCount_def lookup0_def)
  have r1: "foldl perfLine ([], []) (scanLines (p1 @ nl @ p2 @ nl @ nl)) = ([(''funcA;funcB'', 1)], [])"
    unfolding lp1 by (simp add: s1 s2 s3)
  have r2: "foldl perfLine ([], []) (scanLines (p1 @ nl @ p2)) = ([], [''funcB'', ''funcA''])"
    unfolding lp2 by (simp add: s1 s2)
  have w: "writeCollapsed [(''funcA;funcB'', 1)] = ''funcA;funcB 1'' @ nl"
    by (simp add: writeCollapsed_def lookup0_def fmt_d_def digitChar_def natDigits.simps)
  have c1: "CollapsePerf (p1 @ nl @ p2 @ nl @ nl) = ''funcA;funcB 1'' @ nl"
    unfolding CollapsePerf_def r1 by (simp add: w)
  have c2: "CollapsePerf (p1 @ nl @ p2) = ''funcA;funcB 1'' @ nl"
    unfolding CollapsePerf_def r2
    by (simp add: reverseLoop.simps addCount_def lookup0_def w)
  have ld1: "scanLines (''funcX'' @ nl @ ''funcY'' @ nl @ nl) = [''funcX'', ''funcY'', []]"
    by (simp add: scanLines_def nl_def MaxScanTokenSize_def dropCR_def)
  have ld2: "scanLines (''funcX'' @ nl @ ''funcY'' @ nl) = [''funcX'', ''funcY'']"
    by (simp add: scanLines_def nl_def MaxScanTokenSize_def dropCR_def)
  have ld3: "scanLines (''funcX'' @ nl @ ''funcY'') = [''funcX'', ''funcY'']"
    by (simp add: scanLines_def nl_def MaxScanTokenSize_def dropCR_def)
  have d1: "\<And>st. dtraceLine st ''funcX'' = (fst st, snd st @ [''funcX''])"
    by (simp add: go_eval dtraceLine_def isCountLine_def Let_def)
  have d2: "\<And>st. dtraceLine st ''funcY'' = (fst st, snd st @ [''funcY''])"
    by (simp add: go_eval dtraceLine_def isCountLine_def Let_def)
  have d3: "dtraceLine ([], [''funcX'', ''funcY'']) [] = ([(''funcX;funcY'', 1)], [])"
    by (simp add: go_eval dtraceLine_def Let_def addCount_def lookup0_def)
  have w2: "writeCollapsed [(''funcX;funcY'', 1)] = ''funcX;funcY 1'' @ nl"
    by (simp add: writeCollapsed_def lookup0_def fmt_d_def digitChar_def natDigits.simps)
  have w0: "writeCollapsed [] = []"
    by (simp add: writeCollapsed_def)
  have c3: "CollapseDtrace (''funcX'' @ nl @ ''funcY'' @ nl @ nl) = ''funcX;funcY 1'' @ nl"
    unfolding CollapseDtrace_def ld1 by (simp add: d1 d2 d3 w2)
  have c4: "CollapseDtrace (''funcX'' @ nl @ ''funcY'' @ nl) = []"
    unfolding CollapseDtrace_def ld2 by (simp add: d1 d2 w0)
  have c5: "CollapseDtrace (''funcX'' @ nl @ ''funcY'') = []"
    unfolding CollapseDtrace_def ld3 by (simp add: d1 d2 w0)
  have c0: "CollapsePerf (r @ nl @ nl) = CollapsePerf r"
    by (rule CollapsePerf_trailing)
  show ?thesis
    by (rule conjI [OF c0]) (use c1 c2 c3 c4 c5 in \<open>simp add: p1_def p2_def\<close>)
qed

section \<open>The records of an input and the order of the output\<close>

lemma keys_addCount: "set (map fst (addCount s k n)) = insert k (set (map fst s))"
  by (simp add: addCount_def dom_update)

lemma keys_applyIncs:
  "set (map fst (applyIncs incs s)) = set (map fst s) \<union> fst ` set incs"
proof (induction incs arbitrary: s)
  case Nil
  show ?case by (simp add: applyIncs_def)
next
  case (Cons p incs)
  have "applyIncs (p # incs) s = applyIncs incs (addCount s (fst p) (snd p))"
    by (simp add: applyIncs_def)
  then show ?case using Cons [of "addCount s (fst p) (snd p)"] keys_addCount [of s "fst p" "snd p"]
    by auto
qed

lemma lookup0_addCount:
  "lookup0 (addCount s k' n) k = (if k = k' then lookup0 s k + n else lookup0 s k)"
  by (simp add: lookup0_def addCount_def update_conv')

lemma lookup0_applyIncs:
  "lookup0 (applyIncs incs s) k = lookup0 s k + foldedCount incs k"
proof (induction incs arbitrary: s)
  case Nil
  show ?case by (simp add: applyIncs_def foldedCount_def)
next
  case (Cons p incs)
  have a: "applyIncs (p # incs) s = applyIncs incs (addCount s (fst p) (snd p))"
    by (simp add: applyIncs_def)
  show ?case
    unfolding a Cons lookup0_addCount by (simp add: foldedCount_def)
qed

lemma sorted_keys_unique:
  "distinct xs \<Longrightarrow> set xs = set ys \<Longrightarrow> sort xs = sort (remdups (ys :: string list))"
  by (rule sorted_distinct_set_unique) simp_all

lemma written_applyIncs: "writeCollapsed (applyIncs incs []) = foldedText incs"
proof -
  have d: "distinct (map fst (applyIncs incs []))"
    by (rule distinct_applyIncs) simp
  have "set (map fst (applyIncs incs [])) = set (map fst incs)"
    using keys_applyIncs [of incs "[]"] by simp
  then have k: "sort (map fst (applyIncs incs [])) = foldedKeys incs"
    unfolding foldedKeys_def by (rule sorted_keys_unique [OF d])
  have c: "\<And>k. lookup0 (applyIncs incs []) k = foldedCount incs k"
    using lookup0_applyIncs [of incs "[]"] by (simp add: lookup0_def)
  show ?thesis
    by (simp add: writeCollapsed_def foldedText_def k c)
qed

lemma perfFinal_incs:
  "perfFinal (applyIncs recs [], cs) =
     applyIncs (if length cs > 0
        then recs @ [(Join (reverseLoop cs 0 (length cs - 1)) '';'', 1)] else recs) []"
  by (simp add: perfFinal_def applyIncs_def)

lemma CollapsePerf_records: "CollapsePerf input = foldedText (perfRecords input)"
proof -
  obtain recs cs where l: "logSteps perfLine [] (scanLines input) = (recs, cs)"
    by (cases "logSteps perfLine [] (scanLines input)")
  have "foldl perfLine ([], []) (scanLines input) = (applyIncs recs [], cs)"
    using foldl_log [of perfLine "[]" "[]" "scanLines input", OF perfLine_incs] l by simp
  then have "CollapsePerf input = writeCollapsed (applyIncs (perfRecords input) [])"
    by (simp add: CollapsePerf_final perfFinal_incs perfRecords_def l)
  then show ?thesis by (simp add: written_applyIncs)
qed

lemma CollapseDtrace_records: "CollapseDtrace input = foldedText (dtraceRecords input)"
proof -
  have "foldl dtraceLine ([], []) (scanLines input) =
      (applyIncs (dtraceRecords input) [], snd (logSteps dtraceLine [] (scanLines input)))"
    using foldl_log [of dtraceLine "[]" "[]" "scanLines input", OF dtraceLine_incs]
    by (simp add: dtraceRecords_def)
  then have "CollapseDtrace input = writeCollapsed (applyIncs (dtraceRecords input) [])"
    by (simp add: CollapseDtrace_def)
  then show ?thesis by (simp add: written_applyIncs)
qed

lemma foldedText_mset:
  assumes "mset recs = mset recs'"
  shows "foldedText recs = foldedText recs'"
proof -
  have "set (map fst recs) = set (map fst recs')"
    using assms by (metis mset_map set_mset_mset)
  then have "set (remdups (map fst recs)) = set (remdups (map fst recs'))" by simp
  then have k: "foldedKeys recs = foldedKeys recs'"
    unfolding foldedKeys_def
    by (intro sorted_distinct_set_unique) simp_all
  have c: "\<And>k. foldedCount recs k = foldedCount recs' k"
  proof -
    fix k
    have "mset (map snd (filter (\<lambda>r. fst r = k) recs)) =
        mset (map snd (filter (\<lambda>r. fst r = k) recs'))"
      using assms by (simp only: mset_map mset_filter)
    then show "foldedCount recs k = foldedCount recs' k"
      unfolding foldedCount_def by (metis sum_mset_sum_list)
  qed
  show ?thesis by (simp add: foldedText_def k c)
qed

lemma keys_sorted:
  "sorted (foldedKeys recs) \<and> distinct (foldedKeys recs) \<and> set (foldedKeys recs) = fst ` set recs"
  by (simp add: foldedKeys_def)

lemma scanLines_linesText:
  "\<forall>b \<in> set blocks. \<forall>l \<in> set (Split b (CHR 0x0A)). length l < MaxScanTokenSize \<Longrightarrow>
     scanLines (linesText blocks) = concat (map (\<lambda>b. scanLines (b @ nl)) blocks)"
proof (induction blocks)
  case Nil
  then show ?case by (simp add: linesText_def scanLines_def)
next
  case (Cons b blocks)
  have f: "\<forall>l \<in> set (splitFrom [] (CHR 0x0A) b). length l < MaxScanTokenSize"
    using Cons.prems by (simp add: Split_def)
  have "scanLines (linesText (b # blocks)) = scanFrom [] (b @ nl @ linesText blocks)"
    by (simp add: linesText_def scanLines_def)
  also have "\<dots> = scanFrom [] (b @ nl) @ scanFrom [] (linesText blocks)"
    by (rule scanFrom_block [OF f])
  finally show ?case
    using Cons by (simp add: scanLines_def)
qed

lemma log_closed:
  assumes "\<forall>b \<in> set blocks. snd (logSteps step [] (L b)) = []"
  shows "logSteps step [] (concat (map L blocks)) =
      (concat (map (\<lambda>b. fst (logSteps step [] (L b))) blocks), [])"
  using assms
proof (induction blocks)
  case Nil
  show ?case by simp
next
  case (Cons b blocks)
  have e: "snd (logSteps step [] (L b)) = []" using Cons.prems by simp
  have i: "logSteps step [] (concat (map L blocks)) =
      (concat (map (\<lambda>b. fst (logSteps step [] (L b))) blocks), [])"
    using Cons by simp
  have c: "concat (map L (b # blocks)) = L b @ concat (map L blocks)" by simp
  show ?case
    unfolding c log_append [of step "[]" "L b"] e i by simp
qed

lemma dtraceClosed_log:
  "dtraceClosed b \<longleftrightarrow> snd (logSteps dtraceLine [] (scanLines (b @ nl))) = []"
  using foldl_log [of dtraceLine "[]" "[]" "scanLines (b @ nl)", OF dtraceLine_incs]
  by (simp add: dtraceClosed_def)

lemma dtraceRecords_blocks:
  assumes F: "\<forall>b \<in> set blocks. \<forall>l \<in> set (Split b (CHR 0x0A)). length l < MaxScanTokenSize"
    and C: "\<forall>b \<in> set blocks. dtraceClosed b"
  shows "dtraceRecords (linesText blocks) = concat (map (\<lambda>b. dtraceRecords (b @ nl)) blocks)"
proof -
  have c: "\<forall>b \<in> set blocks. snd (logSteps dtraceLine [] (scanLines (b @ nl))) = []"
    using C by (simp add: dtraceClosed_log)
  show ?thesis
    unfolding dtraceRecords_def scanLines_linesText [OF F]
      log_closed [of blocks dtraceLine "\<lambda>b. scanLines (b @ nl)", OF c]
    by simp
qed

lemma mset_concat_map:
  "mset blocks = mset blocks' \<Longrightarrow> mset (concat (map h blocks)) = mset (concat (map h blocks'))"
proof -
  assume a: "mset blocks = mset blocks'"
  have "\<And>bs. mset (concat (map h bs)) = sum_mset (image_mset (\<lambda>b. mset (h b)) (mset bs))"
    by (induct_tac bs) simp_all
  then show ?thesis by (simp add: a)
qed

lemma dtrace_closed_perm:
  assumes M: "mset blocks = mset blocks'"
    and F: "\<forall>b \<in> set blocks. \<forall>l \<in> set (Split b (CHR 0x0A)). length l < MaxScanTokenSize"
    and C: "\<forall>b \<in> set blocks. dtraceClosed b"
  shows "CollapseDtrace (linesText blocks) = CollapseDtrace (linesText blocks')"
proof -
  have s: "set blocks = set blocks'" using M by (rule mset_eq_setD)
  have F': "\<forall>b \<in> set blocks'. \<forall>l \<in> set (Split b (CHR 0x0A)). length l < MaxScanTokenSize"
    using F s by simp
  have C': "\<forall>b \<in> set blocks'. dtraceClosed b" using C s by simp
  have "mset (dtraceRecords (linesText blocks)) = mset (dtraceRecords (linesText blocks'))"
    unfolding dtraceRecords_blocks [OF F C] dtraceRecords_blocks [OF F' C']
    by (rule mset_concat_map [OF M])
  then show ?thesis
    unfolding CollapseDtrace_records by (rule foldedText_mset)
qed

lemma rawText_open:
  "blocks \<noteq> [] \<Longrightarrow> (rawText (butlast blocks) @ last blocks) @ nl @ nl = rawText blocks"
proof -
  assume "blocks \<noteq> []"
  then have "blocks = butlast blocks @ [last blocks]" by simp
  then have "rawText blocks = rawText (butlast blocks @ [last blocks])" by simp
  then show ?thesis by (simp add: rawText_def)
qed

lemma scanFrom_long:
  "c \<noteq> CHR 0x0A \<Longrightarrow> scanFrom cur (replicate n c @ rest) = scanFrom (cur @ replicate n c) rest"
  by (induction n arbitrary: cur) (simp_all add: replicate_app_Cons_same)

lemma scan_longLine: "scanFrom [] (longLine @ nl @ rest) = []"
  unfolding longLine_def
  by (simp add: scanFrom_long nl_def MaxScanTokenSize_def)

text \<open>
  Claim C5 as it is stated covers every raw input.  It fails for both folders at a line
  of 64 KiB, which the scanner does not deliver: the loop ends there, so the record
  \<open>funcZ\<close> is folded when it stands before such a line and is not when it stands after
  it.  It also fails for \<open>CollapseDtrace\<close> on an input whose last record has no
  delimiter: the records \<open>a\<close> and \<open>b\<close> fold to \<open>a 1\<close> in one order and to \<open>b 1\<close> in
  the other, the record that comes last being lost.
\<close>

theorem folding_counterexample:
  "mset [''a'', ''b''] = mset [''b'', ''a''] \<and>
   CollapseDtrace dtraceAB = ''a 1'' @ nl \<and>
   CollapseDtrace dtraceBA = ''b 1'' @ nl \<and>
   CollapseDtrace dtraceAB \<noteq> CollapseDtrace dtraceBA \<and>
   mset [perfZ, longLine] = mset [longLine, perfZ] \<and>
   CollapsePerf (rawText [perfZ, longLine]) = ''funcZ 1'' @ nl \<and>
   CollapsePerf (rawText [longLine, perfZ]) = [] \<and>
   CollapsePerf (rawText [perfZ, longLine]) \<noteq> CollapsePerf (rawText [longLine, perfZ])"
proof -
  define pz where "pz = [CHR 0x09] @ ''0 funcZ''"
  have l1: "scanLines dtraceAB = [''a'', [], ''b'']"
    by (simp add: dtraceAB_def scanLines_def nl_def MaxScanTokenSize_def dropCR_def)
  have l2: "scanLines dtraceBA = [''b'', [], ''a'']"
    by (simp add: dtraceBA_def scanLines_def nl_def MaxScanTokenSize_def dropCR_def)
  have a: "\<And>st. dtraceLine st ''a'' = (fst st, snd st @ [''a''])"
    by (simp add: go_eval dtraceLine_def isCountLine_def Let_def)
  have b: "\<And>st. dtraceLine st ''b'' = (fst st, snd st @ [''b''])"
    by (simp add: go_eval dtraceLine_def isCountLine_def Let_def)
  have e: "\<And>k. dtraceLine ([], [k]) [] = ([(k, 1)], [])"
    by (simp add: go_eval dtraceLine_def Let_def addCount_def lookup0_def)
  have r1: "foldl dtraceLine ([], []) (scanLines dtraceAB) = ([(''a'', 1)], [''b''])"
    unfolding l1 by (simp add: a b e)
  have r2: "foldl dtraceLine ([], []) (scanLines dtraceBA) = ([(''b'', 1)], [''a''])"
    unfolding l2 by (simp add: a b e)
  have w: "\<And>k. writeCollapsed [(k, 1)] = k @ '' 1'' @ nl"
    by (simp add: writeCollapsed_def lookup0_def fmt_d_def digitChar_def natDigits.simps)
  have d1: "CollapseDtrace dtraceAB = ''a 1'' @ nl"
    unfolding CollapseDtrace_def r1 by (simp add: w)
  have d2: "CollapseDtrace dtraceBA = ''b 1'' @ nl"
    unfolding CollapseDtrace_def r2 by (simp add: w)
  have z: "scanFrom [] (perfZ @ nl) = [pz]"
    by (simp add: perfZ_def pz_def nl_def MaxScanTokenSize_def dropCR_def)
  have fz: "\<forall>l \<in> set (splitFrom [] (CHR 0x0A) perfZ). length l < MaxScanTokenSize"
    by (simp add: perfZ_def MaxScanTokenSize_def)
  have "scanLines (rawText [perfZ, longLine]) =
      scanFrom [] (perfZ @ nl @ (nl @ longLine @ nl @ nl))"
    by (simp add: rawText_def scanLines_def)
  also have "\<dots> = scanFrom [] (perfZ @ nl) @ scanFrom [] (nl @ longLine @ nl @ nl)"
    by (rule scanFrom_block [OF fz])
  also have "scanFrom [] (nl @ longLine @ nl @ nl) = [] # scanFrom [] (longLine @ nl @ nl)"
    by (simp add: nl_def MaxScanTokenSize_def dropCR_def)
  finally have l3: "scanLines (rawText [perfZ, longLine]) = [pz, []]"
    by (simp add: z scan_longLine)
  have l4: "scanLines (rawText [longLine, perfZ]) = []"
    using scan_longLine [of "nl @ perfZ @ nl @ nl"] by (simp add: rawText_def scanLines_def)
  have sz: "\<And>st. perfLine st pz = (fst st, snd st @ [''funcZ''])"
    by (simp add: pz_def go_eval perfLine_def Let_def)
  have bz: "perfLine ([], [''funcZ'']) [] = ([(''funcZ'', 1)], [])"
    by (simp add: go_eval perfLine_def Let_def addCount_def lookup0_def)
  have p1: "CollapsePerf (rawText [perfZ, longLine]) = ''funcZ 1'' @ nl"
    unfolding CollapsePerf_def l3 by (simp add: sz bz w)
  have p2: "CollapsePerf (rawText [longLine, perfZ]) = []"
    unfolding CollapsePerf_def l4 by (simp add: writeCollapsed_def)
  show ?thesis using d1 d2 p1 p2 by simp
qed

text \<open>
  Claim C5, amended.  For records whose lines are shorter than 64 KiB, each followed by a
  blank line, the output of \<open>CollapsePerf\<close> and of \<open>CollapseDtrace\<close> is the same for
  every order of the records.  For \<open>CollapsePerf\<close> the last record of the input may
  lack its blank line.  For \<open>CollapseDtrace\<close> the same holds for blocks of lines that
  are each closed by a count line or a blank line.  For every input, the output of a
  folder is the folded text of the records it reads: one line \<open>key count\<close> for every
  key of these records, the keys distinct and in ascending bytewise order, the count being
  the sum of the counts of the records with that key.
\<close>

theorem folding_order_independent:
  "mset blocks = mset blocks' \<Longrightarrow>
   \<forall>b \<in> set blocks. \<forall>l \<in> set (Split b (CHR 0x0A)). length l < MaxScanTokenSize \<Longrightarrow>
     CollapsePerf (rawText blocks) = CollapsePerf (rawText blocks') \<and>
     CollapseDtrace (rawText blocks) = CollapseDtrace (rawText blocks') \<and>
     (blocks' \<noteq> [] \<longrightarrow>
        CollapsePerf (rawText (butlast blocks') @ last blocks') = CollapsePerf (rawText blocks)) \<and>
     ((\<forall>b \<in> set blocks. dtraceClosed b) \<longrightarrow>
        CollapseDtrace (linesText blocks) = CollapseDtrace (linesText blocks')) \<and>
     CollapsePerf input = foldedText (perfRecords input) \<and>
     CollapseDtrace input = foldedText (dtraceRecords input) \<and>
     sorted (foldedKeys recs) \<and> distinct (foldedKeys recs) \<and>
     set (foldedKeys recs) = fst ` set recs"
proof -
  assume M: "mset blocks = mset blocks'"
    and F: "\<forall>b \<in> set blocks. \<forall>l \<in> set (Split b (CHR 0x0A)). length l < MaxScanTokenSize"
  have p: "CollapsePerf (rawText blocks) = CollapsePerf (rawText blocks')"
  proof -
    from perm_blocks [of perfLine, OF perfLine_incs perfLine_blank F M]
    obtain s s' where "foldl perfLine ([], []) (scanLines (rawText blocks)) = (s, [])"
      "foldl perfLine ([], []) (scanLines (rawText blocks')) = (s', [])"
      "writeCollapsed s = writeCollapsed s'"
      by blast
    then show ?thesis by (simp add: CollapsePerf_def)
  qed
  have d: "CollapseDtrace (rawText blocks) = CollapseDtrace (rawText blocks')"
  proof -
    from perm_blocks [of dtraceLine, OF dtraceLine_incs dtraceLine_blank F M]
    obtain s s' where "foldl dtraceLine ([], []) (scanLines (rawText blocks)) = (s, [])"
      "foldl dtraceLine ([], []) (scanLines (rawText blocks')) = (s', [])"
      "writeCollapsed s = writeCollapsed s'"
      by blast
    then show ?thesis by (simp add: CollapseDtrace_def)
  qed
  have o: "blocks' \<noteq> [] \<longrightarrow>
      CollapsePerf (rawText (butlast blocks') @ last blocks') = CollapsePerf (rawText blocks)"
  proof
    assume n: "blocks' \<noteq> []"
    have "CollapsePerf (rawText (butlast blocks') @ last blocks') =
        CollapsePerf ((rawText (butlast blocks') @ last blocks') @ nl @ nl)"
      by (rule CollapsePerf_trailing [symmetric])
    also have "\<dots> = CollapsePerf (rawText blocks')"
      by (simp only: rawText_open [OF n])
    finally show "CollapsePerf (rawText (butlast blocks') @ last blocks') =
        CollapsePerf (rawText blocks)"
      using p by simp
  qed
  have c: "(\<forall>b \<in> set blocks. dtraceClosed b) \<longrightarrow>
      CollapseDtrace (linesText blocks) = CollapseDtrace (linesText blocks')"
    using dtrace_closed_perm [OF M F] by blast
  have k: "sorted (foldedKeys recs) \<and> distinct (foldedKeys recs) \<and>
     set (foldedKeys recs) = fst ` set recs"
    by (rule keys_sorted)
  show ?thesis
    by (rule conjI [OF p], rule conjI [OF d], rule conjI [OF o], rule conjI [OF c],
        rule conjI [OF CollapsePerf_records], rule conjI [OF CollapseDtrace_records], rule k)
qed

theorem folding_order_independent_witness:
  "mset [perfA, perfZ] = mset [perfZ, perfA] \<and>
   Split perfA (CHR 0x0A) = [[CHR 0x09] @ ''0 funcB'', [CHR 0x09] @ ''0 funcA''] \<and>
   Split perfZ (CHR 0x0A) = [[CHR 0x09] @ ''0 funcZ''] \<and>
   perfRecords (rawText [perfZ, perfA]) = [(''funcZ'', 1), (''funcA;funcB'', 1)] \<and>
   foldedKeys [(''funcZ'', 1), (''funcA;funcB'', 1)] = [''funcA;funcB'', ''funcZ''] \<and>
   CollapsePerf (rawText [perfZ, perfA]) = ''funcA;funcB 1'' @ nl @ ''funcZ 1'' @ nl \<and>
   CollapsePerf (rawText [perfA, perfZ]) = ''funcA;funcB 1'' @ nl @ ''funcZ 1'' @ nl \<and>
   CollapsePerf (rawText [perfZ] @ perfA) = ''funcA;funcB 1'' @ nl @ ''funcZ 1'' @ nl \<and>
   mset [dtraceA, dtraceZ] = mset [dtraceZ, dtraceA] \<and>
   Split dtraceA (CHR 0x0A) = [''funcA'', ''funcB'', ''3''] \<and>
   Split dtraceZ (CHR 0x0A) = [''funcZ'', ''2''] \<and>
   dtraceClosed dtraceA \<and> dtraceClosed dtraceZ \<and>
   CollapseDtrace (linesText [dtraceZ, dtraceA]) = ''funcA;funcB 3'' @ nl @ ''funcZ 2'' @ nl \<and>
   CollapseDtrace (linesText [dtraceA, dtraceZ]) = ''funcA;funcB 3'' @ nl @ ''funcZ 2'' @ nl"
proof -
  define p1 where "p1 = [CHR 0x09] @ ''0 funcB''"
  define p2 where "p2 = [CHR 0x09] @ ''0 funcA''"
  define pz where "pz = [CHR 0x09] @ ''0 funcZ''"
  have m: "mset [perfA, perfZ] = mset [perfZ, perfA]" by simp
  have sa: "Split perfA (CHR 0x0A) = [p1, p2]"
    by (simp add: perfA_def p1_def p2_def Split_def nl_def)
  have sz: "Split perfZ (CHR 0x0A) = [pz]"
    by (simp add: perfZ_def pz_def Split_def)
  have f: "\<forall>b \<in> set [perfA, perfZ]. \<forall>l \<in> set (Split b (CHR 0x0A)).
      length l < MaxScanTokenSize"
    by (simp add: sa sz p1_def p2_def pz_def MaxScanTokenSize_def)
  have l: "scanLines (rawText [perfZ, perfA]) = [pz, [], p1, p2, []]"
    by (simp add: rawText_def perfA_def perfZ_def p1_def p2_def pz_def scanLines_def nl_def
          MaxScanTokenSize_def dropCR_def)
  have s1: "\<And>st. perfLine st p1 = (fst st, snd st @ [''funcB''])"
    by (simp add: p1_def go_eval perfLine_def Let_def)
  have s2: "\<And>st. perfLine st p2 = (fst st, snd st @ [''funcA''])"
    by (simp add: p2_def go_eval perfLine_def Let_def)
  have sz': "\<And>st. perfLine st pz = (fst st, snd st @ [''funcZ''])"
    by (simp add: pz_def go_eval perfLine_def Let_def)
  have b1: "\<And>stacks. perfLine (stacks, [''funcZ'']) [] = (addCount stacks ''funcZ'' 1, [])"
    by (simp add: go_eval perfLine_def Let_def)
  have b2: "\<And>stacks. perfLine (stacks, [''funcB'', ''funcA'']) [] =
      (addCount stacks ''funcA;funcB'' 1, [])"
    by (simp add: go_eval perfLine_def Let_def)
  have rec: "perfRecords (rawText [perfZ, perfA]) = [(''funcZ'', 1), (''funcA;funcB'', 1)]"
    unfolding perfRecords_def l
    by (simp add: s1 s2 sz' b1 b2 addCount_def lookup0_def)
  have keys: "foldedKeys [(''funcZ'', 1), (''funcA;funcB'', 1)] = [''funcA;funcB'', ''funcZ'']"
    by (simp add: foldedKeys_def)
  have out: "CollapsePerf (rawText [perfZ, perfA]) = ''funcA;funcB 1'' @ nl @ ''funcZ 1'' @ nl"
    using folding_order_independent [OF m f, of "rawText [perfZ, perfA]"]
    by (simp add: rec foldedText_def keys foldedCount_def fmt_d_def digitChar_def natDigits.simps)
  have dm: "mset [dtraceA, dtraceZ] = mset [dtraceZ, dtraceA]" by simp
  have da: "Split dtraceA (CHR 0x0A) = [''funcA'', ''funcB'', ''3'']"
    by (simp add: dtraceA_def Split_def nl_def)
  have dz: "Split dtraceZ (CHR 0x0A) = [''funcZ'', ''2'']"
    by (simp add: dtraceZ_def Split_def nl_def)
  have df: "\<forall>b \<in> set [dtraceA, dtraceZ]. \<forall>l \<in> set (Split b (CHR 0x0A)).
      length l < MaxScanTokenSize"
    by (simp add: da dz MaxScanTokenSize_def)
  have la: "scanLines (dtraceA @ nl) = [''funcA'', ''funcB'', ''3'']"
    by (simp add: dtraceA_def scanLines_def nl_def MaxScanTokenSize_def dropCR_def)
  have lz: "scanLines (dtraceZ @ nl) = [''funcZ'', ''2'']"
    by (simp add: dtraceZ_def scanLines_def nl_def MaxScanTokenSize_def dropCR_def)
  have ll: "scanLines (linesText [dtraceZ, dtraceA]) =
      [''funcZ'', ''2'', ''funcA'', ''funcB'', ''3'']"
    by (simp add: linesText_def dtraceA_def dtraceZ_def scanLines_def nl_def
          MaxScanTokenSize_def dropCR_def)
  have fa: "\<And>st. dtraceLine st ''funcA'' = (fst st, snd st @ [''funcA''])"
    by (simp add: go_eval dtraceLine_def isCountLine_def Let_def)
  have fb: "\<And>st. dtraceLine st ''funcB'' = (fst st, snd st @ [''funcB''])"
    by (simp add: go_eval dtraceLine_def isCountLine_def Let_def)
  have fz: "\<And>st. dtraceLine st ''funcZ'' = (fst st, snd st @ [''funcZ''])"
    by (simp add: go_eval dtraceLine_def isCountLine_def Let_def)
  have c3: "\<And>stacks. dtraceLine (stacks, [''funcA'', ''funcB'']) ''3'' =
      (addCount stacks ''funcA;funcB'' 3, [])"
    by (simp add: go_eval dtraceLine_def isCountLine_def Let_def)
  have c2: "\<And>stacks. dtraceLine (stacks, [''funcZ'']) ''2'' = (addCount stacks ''funcZ'' 2, [])"
    by (simp add: go_eval dtraceLine_def isCountLine_def Let_def)
  have ca: "dtraceClosed dtraceA"
    unfolding dtraceClosed_def la by (simp add: fa fb c3)
  have cz: "dtraceClosed dtraceZ"
    unfolding dtraceClosed_def lz by (simp add: fz c2)
  have cl: "\<forall>b \<in> set [dtraceA, dtraceZ]. dtraceClosed b" using ca cz by simp
  have run: "foldl dtraceLine ([], []) (scanLines (linesText [dtraceZ, dtraceA])) =
      ([(''funcZ'', 2), (''funcA;funcB'', 3)], [])"
    unfolding ll by (simp add: fa fb fz c3 c2 addCount_def lookup0_def)
  have dout: "CollapseDtrace (linesText [dtraceZ, dtraceA]) =
      ''funcA;funcB 3'' @ nl @ ''funcZ 2'' @ nl"
    unfolding CollapseDtrace_def run
    by (simp add: writeCollapsed_def lookup0_def fmt_d_def digitChar_def natDigits.simps)
  have n: "[perfZ, perfA] \<noteq> []" by simp
  note P = folding_order_independent [OF m f, of "rawText [perfZ, perfA]" "[]"]
  note D = folding_order_independent [OF dm df, of "[]" "[]"]
  have t1: "CollapsePerf (rawText [perfA, perfZ]) = CollapsePerf (rawText [perfZ, perfA])"
    using P by blast
  have t3: "CollapsePerf (rawText (butlast [perfZ, perfA]) @ last [perfZ, perfA]) =
      CollapsePerf (rawText [perfA, perfZ])"
    using P n by blast
  have t4: "CollapseDtrace (linesText [dtraceA, dtraceZ]) =
      CollapseDtrace (linesText [dtraceZ, dtraceA])"
    using D cl by blast
  have t3': "CollapsePerf (rawText [perfZ] @ perfA) = CollapsePerf (rawText [perfA, perfZ])"
    using t3 by simp
  show ?thesis
    using m dm sa sz rec keys out dout da dz ca cz t1 t3' t4
    by (simp add: p1_def p2_def pz_def)
qed

section \<open>The input of \<open>GenerateSVG\<close>\<close>

lemma spaceLen_blank: "blank c \<Longrightarrow> spaceLen (c # s) = 1"
  unfolding blank_def
  by (elim insertE emptyE) (simp_all add: spaceLen_def spaceRunes_def HasPrefix_def)

lemma spaceLen_other: "\<not> spaceLead c \<Longrightarrow> spaceLen (c # s) = 0"
  by (simp add: spaceLead_def spaceLen_def spaceRunes_def HasPrefix_def)

lemma SkipSpace_start:
  "t = [] \<or> \<not> spaceLead (hd t) \<Longrightarrow> SkipSpace t = Some t"
proof (cases t)
  case Nil
  then show ?thesis by (simp add: SkipSpace.simps [of "[]"] HasPrefix_def spaceLen_def spaceRunes_def)
next
  case (Cons c s)
  assume "t = [] \<or> \<not> spaceLead (hd t)"
  with Cons have n: "\<not> spaceLead c" by simp
  then have "c \<noteq> CHR 0x0A" by (auto simp: spaceLead_def spaceRunes_def)
  then show ?thesis using Cons n
    by (simp add: SkipSpace.simps [of "c # s"] HasPrefix_def spaceLen_other)
qed

lemma SkipSpace_blanks:
  "list_all blank sp \<Longrightarrow> t = [] \<or> \<not> spaceLead (hd t) \<Longrightarrow> SkipSpace (sp @ t) = Some t"
proof (induction sp)
  case Nil
  then show ?case by (simp add: SkipSpace_start)
next
  case (Cons c sp)
  then have b: "blank c" by simp
  then have "c \<noteq> CHR 0x0A" by (auto simp: blank_def)
  then show ?case using Cons b
    by (simp add: SkipSpace.simps [of "c # sp @ t"] HasPrefix_def spaceLen_blank)
qed

lemma digit_not_lead: "isDigit c \<Longrightarrow> \<not> spaceLead c \<and> c \<noteq> CHR ''-'' \<and> c \<noteq> CHR ''+''"
  by (auto simp: isDigit_def spaceLead_def spaceRunes_def less_eq_char_def)

lemma sign_not_lead: "\<not> spaceLead (CHR ''-'') \<and> \<not> spaceLead (CHR ''+'') \<and> \<not> isDigit (CHR ''-'') \<and> \<not> isDigit (CHR ''+'')"
  by (simp add: isDigit_def spaceLead_def spaceRunes_def less_eq_char_def)

lemma takeWhile_digits:
  "list_all isDigit ds \<Longrightarrow> t = [] \<or> \<not> isDigit (hd t) \<Longrightarrow> takeWhile isDigit (ds @ t) = ds"
  by (cases t) (auto simp: list_all_iff takeWhile_append2)

lemma Sscanf_d_number:
  assumes sp: "list_all blank sp" and sg: "sn = [] \<or> sn = ''+'' \<or> sn = ''-''"
    and ds: "ds \<noteq> []" "list_all isDigit ds" and t: "t = [] \<or> \<not> isDigit (hd t)"
  shows "Sscanf_d (sp @ sn @ ds @ t) =
     (let n = (if sn = ''-'' then - decimal ds else decimal ds)
      in if n < - (2 ^ 63) \<or> 2 ^ 63 - 1 < n then None else Some (word_of_int n))"
proof -
  obtain d ds' where d: "ds = d # ds'" using ds(1) by (cases ds) auto
  have dd: "isDigit d" using ds(2) d by simp
  have h: "sn @ ds @ t = [] \<or> \<not> spaceLead (hd (sn @ ds @ t))"
    using sg d digit_not_lead [OF dd] sign_not_lead by auto
  have s: "SkipSpace (sp @ sn @ ds @ t) = Some (sn @ ds @ t)"
    by (rule SkipSpace_blanks [OF sp h])
  have tw: "takeWhile isDigit (ds @ t) = ds" by (rule takeWhile_digits [OF ds(2) t])
  show ?thesis using sg
  proof (elim disjE)
    assume "sn = []"
    then show ?thesis using s tw ds(1) d digit_not_lead [OF dd]
      by (simp add: Sscanf_d_def HasPrefix_def Let_def)
  next
    assume "sn = ''+''"
    then show ?thesis using s tw ds(1)
      by (simp add: Sscanf_d_def HasPrefix_def Let_def)
  next
    assume "sn = ''-''"
    then show ?thesis using s tw ds(1)
      by (simp add: Sscanf_d_def HasPrefix_def Let_def)
  qed
qed

lemma Sscanf_d_no_number:
  assumes sp: "list_all blank sp"
    and t: "t = [] \<or> (\<not> isDigit (hd t) \<and> \<not> spaceLead (hd t) \<and> hd t \<noteq> CHR ''+'' \<and> hd t \<noteq> CHR ''-'')"
  shows "Sscanf_d (sp @ t) = None"
proof -
  have s: "SkipSpace (sp @ t) = Some t" using t by (intro SkipSpace_blanks [OF sp]) auto
  have "takeWhile isDigit t = []" using t by (cases t) auto
  moreover have "\<not> HasPrefix t ''-'' \<and> \<not> HasPrefix t ''+''" using t by (cases t) (auto simp: HasPrefix_def)
  ultimately show ?thesis using s by (simp add: Sscanf_d_def Let_def)
qed

lemma Sscanf_d_sign_only:
  assumes sp: "list_all blank sp" and sg: "sn = ''+'' \<or> sn = ''-''"
    and t: "t = [] \<or> \<not> isDigit (hd t)"
  shows "Sscanf_d (sp @ sn @ t) = None"
proof -
  have s: "SkipSpace (sp @ sn @ t) = Some (sn @ t)"
    using sg sign_not_lead by (intro SkipSpace_blanks [OF sp]) auto
  have "takeWhile isDigit t = []" using t by (cases t) auto
  then show ?thesis using s sg by (auto simp: Sscanf_d_def Let_def HasPrefix_def)
qed

lemma word_of_int_0_iff:
  "- (2 ^ 63) \<le> n \<Longrightarrow> n \<le> 2 ^ 63 - 1 \<Longrightarrow> (word_of_int n :: goint) = 0 \<longleftrightarrow> n = 0"
proof
  assume r: "- (2 ^ 63) \<le> n" "n \<le> 2 ^ 63 - 1" and z: "(word_of_int n :: goint) = 0"
  have "sint (word_of_int n :: goint) = n"
    using r by (simp add: signed_of_int signed_take_bit_int_eq_self)
  then show "n = 0" using z by simp
qed simp

text \<open>
  Claim C9, as the specification states it, at a count field that is not a number but
  starts with one: the fields \<open>12abc\<close> and \<open>7 samples\<close> are not numeric, and they are
  counted as 12 and as 7, not as 1.
\<close>

theorem addLine_counterexample:
  "\<not> list_all isDigit ''12abc'' \<and> scanCount ''12abc'' = 12 \<and>
   \<not> list_all isDigit ''7 samples'' \<and> scanCount ''7 samples'' = 7 \<and>
   addLine (newFrame ''root'', 0) ''a 12abc'' = (Frame ''root'' 12 [(''a'', Frame ''a'' 12 [])], 12)"
proof -
  have a: "Sscanf_d ''12abc'' = Some 12" by (simp add: go_eval)
  have b: "Sscanf_d ''7 samples'' = Some 7" by (simp add: go_eval)
  have c: "SplitN2 ''a 12abc'' CHR '' '' = [''a'', ''12abc'']" by (simp add: go_eval)
  have d: "Split ''a'' CHR '';'' = [''a'']" by (simp add: go_eval)
  show ?thesis using a b c d
    by (simp add: scanCount_def addLine_def newFrame_def isDigit_def)
qed

text \<open>
  Claim C9, amended.  A line without a space leaves the tree and the total as they are.
  The count field is read as \<open>%d\<close> reads it: after leading white space, an optional sign
  and the decimal digits that follow it, whatever comes after the digits.  A field that
  starts with such a number counts as that number, unless the number is 0 or does not fit
  64 bits: then it counts as 1.  A field with no digit at that place (an empty field,
  another character, a sign with no digit after it) counts as 1.  So the count of a record
  is never 0.  A line with a space is always a record: its count is added to the root, to
  the frames of its stack and to the total.  No line makes the scan fail.
\<close>

theorem addLine_lenient:
  "(CHR '' '' \<notin> set line \<longrightarrow> addLine st line = st) \<and>
   (list_all blank sp \<and> (sn = [] \<or> sn = ''+'' \<or> sn = ''-'') \<and> ds \<noteq> [] \<and>
    list_all isDigit ds \<and> (t = [] \<or> \<not> isDigit (hd t)) \<longrightarrow>
      scanCount (sp @ sn @ ds @ t) =
        (let n = (if sn = ''-'' then - decimal ds else decimal ds)
         in if n = 0 \<or> n < - (2 ^ 63) \<or> 2 ^ 63 - 1 < n then 1 else word_of_int n)) \<and>
   (list_all blank sp \<and>
    (t = [] \<or> (\<not> isDigit (hd t) \<and> \<not> spaceLead (hd t) \<and> hd t \<noteq> CHR ''+'' \<and> hd t \<noteq> CHR ''-'')) \<longrightarrow>
      scanCount (sp @ t) = 1) \<and>
   (list_all blank sp \<and> (sn = ''+'' \<or> sn = ''-'') \<and> (t = [] \<or> \<not> isDigit (hd t)) \<longrightarrow>
      scanCount (sp @ sn @ t) = 1) \<and>
   scanCount rest \<noteq> 0 \<and>
   (CHR '' '' \<notin> set stack \<longrightarrow>
      addLine (root, tot) (stack @ '' '' @ rest) =
        (Frame (name root) (val root + scanCount rest)
           (addStack (Split stack CHR '';'') (scanCount rest) (children root)),
         tot + scanCount rest))"
proof -
  have a: "CHR '' '' \<notin> set line \<longrightarrow> addLine st line = st"
    by (simp add: addLine_def SplitN2_no_sep)
  have b: "list_all blank sp \<and> (sn = [] \<or> sn = ''+'' \<or> sn = ''-'') \<and> ds \<noteq> [] \<and>
    list_all isDigit ds \<and> (t = [] \<or> \<not> isDigit (hd t)) \<longrightarrow>
      scanCount (sp @ sn @ ds @ t) =
        (let n = (if sn = ''-'' then - decimal ds else decimal ds)
         in if n = 0 \<or> n < - (2 ^ 63) \<or> 2 ^ 63 - 1 < n then 1 else word_of_int n)"
  proof
    assume h: "list_all blank sp \<and> (sn = [] \<or> sn = ''+'' \<or> sn = ''-'') \<and> ds \<noteq> [] \<and>
      list_all isDigit ds \<and> (t = [] \<or> \<not> isDigit (hd t))"
    define n where "n = (if sn = ''-'' then - decimal ds else decimal ds)"
    have s: "Sscanf_d (sp @ sn @ ds @ t) =
        (if n < - (2 ^ 63) \<or> 2 ^ 63 - 1 < n then None else Some (word_of_int n))"
      using h Sscanf_d_number [of sp sn ds t] by (simp add: n_def Let_def)
    have "scanCount (sp @ sn @ ds @ t) =
        (if n = 0 \<or> n < - (2 ^ 63) \<or> 2 ^ 63 - 1 < n then 1 else word_of_int n)"
    proof (cases "n < - (2 ^ 63) \<or> 2 ^ 63 - 1 < n")
      case True
      then show ?thesis using s by (auto simp: scanCount_def)
    next
      case False
      then have z: "(word_of_int n :: goint) = 0 \<longleftrightarrow> n = 0"
        by (intro word_of_int_0_iff) simp_all
      show ?thesis using False s z by (simp add: scanCount_def)
    qed
    then show "scanCount (sp @ sn @ ds @ t) =
        (let n = (if sn = ''-'' then - decimal ds else decimal ds)
         in if n = 0 \<or> n < - (2 ^ 63) \<or> 2 ^ 63 - 1 < n then 1 else word_of_int n)"
      by (simp add: n_def Let_def)
  qed
  have c: "list_all blank sp \<and>
    (t = [] \<or> (\<not> isDigit (hd t) \<and> \<not> spaceLead (hd t) \<and> hd t \<noteq> CHR ''+'' \<and> hd t \<noteq> CHR ''-'')) \<longrightarrow>
      scanCount (sp @ t) = 1"
    using Sscanf_d_no_number [of sp t] by (simp add: scanCount_def)
  have d: "list_all blank sp \<and> (sn = ''+'' \<or> sn = ''-'') \<and> (t = [] \<or> \<not> isDigit (hd t)) \<longrightarrow>
      scanCount (sp @ sn @ t) = 1"
    using Sscanf_d_sign_only [of sp sn t] by (simp add: scanCount_def)
  have e: "CHR '' '' \<notin> set stack \<longrightarrow>
      addLine (root, tot) (stack @ '' '' @ rest) =
        (Frame (name root) (val root + scanCount rest)
           (addStack (Split stack CHR '';'') (scanCount rest) (children root)),
         tot + scanCount rest)"
  proof
    assume ns: "CHR '' '' \<notin> set stack"
    have tw: "takeWhile (\<lambda>x. x \<noteq> CHR '' '') (stack @ '' '' @ rest) = stack"
      using ns by (induction stack) auto
    have dw: "dropWhile (\<lambda>x. x \<noteq> CHR '' '') (stack @ '' '' @ rest) = '' '' @ rest"
      using ns by (induction stack) auto
    have "SplitN2 (stack @ '' '' @ rest) CHR '' '' = [stack, rest]"
      using tw dw by (simp add: SplitN2_sep)
    then show "addLine (root, tot) (stack @ '' '' @ rest) =
        (Frame (name root) (val root + scanCount rest)
           (addStack (Split stack CHR '';'') (scanCount rest) (children root)),
         tot + scanCount rest)"
      by (simp add: addLine_def Let_def)
  qed
  have f: "scanCount rest \<noteq> 0" by (rule scanCount_nonzero)
  show ?thesis
    by (rule conjI [OF a], rule conjI [OF b], rule conjI [OF c], rule conjI [OF d],
        rule conjI [OF f], rule e)
qed

theorem addLine_lenient_witness:
  "CHR '' '' \<notin> set ''junk'' \<and>
   addLine (newFrame ''root'', 0) ''junk'' = (newFrame ''root'', 0) \<and>
   list_all blank '' '' \<and> list_all isDigit ''12'' \<and> \<not> isDigit (hd ''abc'') \<and>
   \<not> spaceLead (hd ''abc'') \<and>
   scanCount ('' '' @ ''-'' @ ''12'' @ ''abc'') = - 12 \<and>
   scanCount ('' '' @ ''abc'') = 1 \<and>
   scanCount ('' '' @ ''-'' @ ''abc'') = 1 \<and>
   scanCount ''many'' = 1 \<and>
   CHR '' '' \<notin> set ''a;b'' \<and>
   addLine (newFrame ''root'', 0) (''a;b'' @ '' '' @ ''many'') =
     (Frame ''root'' 1 [(''a'', Frame ''a'' 1 [(''b'', Frame ''b'' 1 [])])], 1)"
proof -
  have n: "Sscanf_d ''many'' = None" by (simp add: go_eval)
  have m: "scanCount ''many'' = 1" using n by (simp add: scanCount_def)
  have j: "CHR '' '' \<notin> set ''junk''" by simp
  have k: "CHR '' '' \<notin> set ''a;b''" by simp
  have b: "list_all blank '' ''" by (simp add: blank_def)
  have d: "list_all isDigit ''12''" by (simp add: isDigit_def)
  have t: "\<not> isDigit (hd ''abc'')" "\<not> spaceLead (hd ''abc'')"
    "hd ''abc'' \<noteq> CHR ''+''" "hd ''abc'' \<noteq> CHR ''-''"
    by (simp_all add: isDigit_def spaceLead_def spaceRunes_def)
  have v: "decimal ''12'' = 12" by (simp add: decimal_def digitVal_def)
  have sp: "Split ''a;b'' CHR '';'' = [''a'', ''b'']" by (simp add: Split_def)
  show ?thesis
    using m j k b d t v
      addLine_lenient [of "''junk''" "(newFrame ''root'', 0)" "'' ''" "''-''" "''12''" "''abc''"
        "''many''" "''a;b''" "newFrame ''root''" 0]
    by (simp add: sp newFrame_def)
qed

text \<open>
  Claim C8.  On an input whose total is not zero, the output of \<open>GenerateSVG\<close> is the
  header for the height \<open>h\<close>, the frames drawn from \<open>baseY = h - 20\<close>, and the closing
  tag, where \<open>h\<close> is \<open>(maxDepth + 2) * 16 + 40 + 20\<close> when \<open>opts.Height\<close> is 0 and
  \<open>opts.Height\<close> itself otherwise.
\<close>

theorem GenerateSVG_height:
  "parseCollapsed collapsed = (root, tot) \<Longrightarrow> tot \<noteq> 0 \<Longrightarrow>
   fst (GenerateSVG fl collapsed opts) =
     (let w = (if Width opts = 0 then 1200 else Width opts);
          h = (if Height opts = 0 then (getMaxDepth root 0 + 2) * 16 + 40 + 20
               else Height opts)
      in svgHeader (opts\<lparr>Width := w, Height := h\<rparr>) 12 tot @
         renderFrame fl root 10 (h - 20) (w - 20) 16 12 tot 0 (ColorScheme opts) @
         ''</svg>'' @ nl)"
  by (simp add: GenerateSVG_def writeSVG_def Let_def)

theorem GenerateSVG_height_witness:
  "parseCollapsed foldedExample = (treeExample, 3) \<and>
   (3 :: goint) \<noteq> 0 \<and>
   getMaxDepth treeExample 0 = 2 \<and>
   fst (GenerateSVG floatsExample foldedExample DefaultSVGOptions) =
     svgHeader (DefaultSVGOptions\<lparr>Height := 124\<rparr>) 12 3 @
     renderFrame floatsExample treeExample
        10 104 1180 16 12 3 0 ''hot'' @ ''</svg>'' @ nl \<and>
   fst (GenerateSVG floatsExample foldedExample
          (DefaultSVGOptions\<lparr>Height := 300\<rparr>)) =
     svgHeader (DefaultSVGOptions\<lparr>Height := 300\<rparr>) 12 3 @
     renderFrame floatsExample treeExample
        10 280 1180 16 12 3 0 ''hot'' @ ''</svg>'' @ nl"
proof -
  have nz: "(3 :: goint) \<noteq> 0" by simp
  have d: "getMaxDepth treeExample 0 = 2"
    by (simp add: treeExample_def)
  show ?thesis
    using GenerateSVG_height [OF parse_example nz, of floatsExample DefaultSVGOptions]
      GenerateSVG_height [OF parse_example nz, of floatsExample "DefaultSVGOptions\<lparr>Height := 300\<rparr>"]
      parse_example d
    by (simp add: DefaultSVGOptions_def)
qed


section \<open>Conservation in the tree\<close>

lemma addStack_Cons:
  "addStack (k # rest) c ch =
     AList.update k (bumpFrame rest c (case map_of ch k of None \<Rightarrow> newFrame k | Some x \<Rightarrow> x)) ch"
  by (simp add: bumpFrame_def Let_def)

lemma sum_update:
  "sum_list (map (\<lambda>p. val (snd p)) (AList.update k x ch)) =
     sum_list (map (\<lambda>p. val (snd p)) ch) - (case map_of ch k of None \<Rightarrow> 0 | Some y \<Rightarrow> val y) + val x"
  by (induction ch) auto

lemma selfAt_newFrame: "selfAt (newFrame k) p = 0"
  by (cases p) (simp_all add: selfAt_def newFrame_def childSum_def)

lemma val_bumpFrame: "val (bumpFrame fr c f) = val f + c"
  by (simp add: bumpFrame_def)

lemma selfAt_bumpFrame:
  "selfAt (bumpFrame fr c f) p = selfAt f p + (if p = fr then c else 0)"
proof (induction fr arbitrary: f p)
  case Nil
  show ?case
    by (cases p) (simp_all add: selfAt_def bumpFrame_def childSum_def)
next
  case (Cons k rest)
  define child0 where "child0 = (case map_of (children f) k of None \<Rightarrow> newFrame k | Some x \<Rightarrow> x)"
  have ch: "children (bumpFrame (k # rest) c f) =
      AList.update k (bumpFrame rest c child0) (children f)"
    by (simp add: bumpFrame_def child0_def Let_def)
  show ?case
  proof (cases p)
    case Nil
    have "childSum (bumpFrame (k # rest) c f) = childSum f + c"
      unfolding childSum_def ch sum_update
      by (simp add: val_bumpFrame child0_def newFrame_def split: option.splits)
    then show ?thesis
      using Nil by (simp add: selfAt_def val_bumpFrame)
  next
    case (Cons k' ks)
    show ?thesis
    proof (cases "k' = k")
      case True
      have "selfAt (bumpFrame (k # rest) c f) p = selfAt (bumpFrame rest c child0) ks"
        using Cons True by (simp add: selfAt_def ch update_conv')
      also have "\<dots> = selfAt child0 ks + (if ks = rest then c else 0)"
        by (rule Cons.IH)
      also have "selfAt child0 ks = selfAt f p"
      proof (cases "map_of (children f) k")
        case None
        then have "selfAt f p = 0"
          using Cons True by (simp add: selfAt_def)
        then show ?thesis
          using None by (simp add: child0_def selfAt_newFrame)
      next
        case (Some x)
        then show ?thesis
          using Cons True by (simp add: child0_def selfAt_def)
      qed
      finally show ?thesis using Cons True by simp
    next
      case False
      then show ?thesis
        using Cons by (simp add: selfAt_def ch update_conv')
    qed
  qed
qed

lemma addLine_record:
  "addLine (root, tot) line =
     (case lineRecord line of
        None \<Rightarrow> (root, tot)
      | Some (fr, c) \<Rightarrow> (bumpFrame fr c root, tot + c))"
  by (simp add: addLine_def lineRecord_def bumpFrame_def Let_def
      split: list.splits)

lemma foldl_addLine:
  "foldl addLine (root, tot) ls = (root', tot') \<Longrightarrow>
     val root' = val root + sum_list (map snd (List.map_filter lineRecord ls)) \<and>
     tot' = tot + sum_list (map snd (List.map_filter lineRecord ls)) \<and>
     (\<forall>p. selfAt root' p = selfAt root p + endCount p (List.map_filter lineRecord ls))"
proof (induction ls arbitrary: root tot)
  case Nil
  then show ?case by (simp add: List.map_filter_def endCount_def)
next
  case (Cons l ls)
  show ?case
  proof (cases "lineRecord l")
    case None
    then have "foldl addLine (root, tot) ls = (root', tot')"
      using Cons.prems by (simp add: addLine_record)
    from Cons.IH [OF this] show ?thesis
      using None by simp
  next
    case (Some r)
    obtain fr c where r: "r = (fr, c)" by (cases r)
    have "foldl addLine (bumpFrame fr c root, tot + c) ls = (root', tot')"
      using Cons.prems Some r by (simp add: addLine_record)
    from Cons.IH [OF this] show ?thesis
      using Some r
      by (simp add: val_bumpFrame selfAt_bumpFrame endCount_def add.assoc)
  qed
qed

lemma splitFrom_nonempty: "splitFrom cur sep s \<noteq> []"
  by (induction s arbitrary: cur) auto

lemma lineRecord_frames: "lineRecord l = Some (fr, c) \<Longrightarrow> fr \<noteq> []"
  by (auto simp: lineRecord_def Split_def splitFrom_nonempty split: list.splits)

lemma endCount_Nil: "endCount [] (List.map_filter lineRecord ls) = 0"
proof -
  have "filter (\<lambda>r. fst r = []) (List.map_filter lineRecord ls) = []"
    by (auto simp: filter_empty_conv List.map_filter_def dest: lineRecord_frames)
  then show ?thesis by (simp add: endCount_def)
qed

lemma lineRecord_examples:
  "lineRecord ''a 5'' = Some ([''a''], 5)"
  "lineRecord ''a;b 3'' = Some ([''a'', ''b''], 3)"
  "lineRecord ''a;b 2'' = Some ([''a'', ''b''], 2)"
  "lineRecord ''a;c 1'' = Some ([''a'', ''c''], 1)"
  by (simp_all add: lineRecord_def scanCount_def go_eval)

lemma scanLines_examples:
  "scanLines foldedEnding = [''a 5'', ''a;b 3'']"
  "scanLines foldedExample = [''a;b 2'', ''a;c 1'']"
  by (simp_all add: foldedEnding_def foldedExample_def scanLines_def nl_def
        MaxScanTokenSize_def dropCR_def)

lemma records_examples:
  "records foldedEnding = [([''a''], 5), ([''a'', ''b''], 3)]"
  "records foldedExample = [([''a'', ''b''], 2), ([''a'', ''c''], 1)]"
  by (simp_all add: records_def scanLines_examples lineRecord_examples)

lemma parse_ending:
  "parseCollapsed foldedEnding =
     (Frame ''root'' 8 [(''a'', Frame ''a'' 8 [(''b'', Frame ''b'' 3 [])])], 8)"
  unfolding parseCollapsed_def scanLines_examples
  by (simp add: addLine_record lineRecord_examples bumpFrame_def newFrame_def)

text \<open>
  Claim C1 as it is stated fails: on the input of the two records \<open>a 5\<close> and
  \<open>a;b 3\<close> the node \<open>a\<close> has a child, its value is 8 and the values of its children
  sum to 3.
\<close>

theorem conservation_counterexample:
  "records foldedEnding = [([''a''], 5), ([''a'', ''b''], 3)] \<and>
   (case parseCollapsed foldedEnding of
      (root, tot) \<Rightarrow>
        (case nodeAt root [''a''] of
           None \<Rightarrow> False
         | Some node \<Rightarrow>
             children node \<noteq> [] \<and> val node = 8 \<and> childSum node = 3 \<and>
             val node \<noteq> childSum node))"
  by (simp add: records_examples parse_ending childSum_def)

text \<open>
  Claim C1, amended.  In the tree built from any input, the value of the root is the sum
  of the counts of all records (in 64-bit arithmetic) and is the total; it equals the sum
  of the values of the root's children.  The value of any node equals the sum of the
  values of its children plus the counts of the records whose stack ends at that node; so
  it equals the sum of its children's values when no record ends there.
\<close>

theorem tree_conservation:
  "parseCollapsed collapsed = (root, tot) \<Longrightarrow>
     val root = sum_list (map snd (records collapsed)) \<and>
     tot = val root \<and>
     val root = childSum root \<and>
     (\<forall>path node. nodeAt root path = Some node \<longrightarrow>
        val node = childSum node + endCount path (records collapsed)) \<and>
     (\<forall>path node. nodeAt root path = Some node \<and> endCount path (records collapsed) = 0 \<longrightarrow>
        val node = childSum node)"
proof -
  assume p: "parseCollapsed collapsed = (root, tot)"
  then have f: "foldl addLine (newFrame ''root'', 0) (scanLines collapsed) = (root, tot)"
    by (simp add: parseCollapsed_def)
  note F = foldl_addLine [OF f, folded records_def]
  have v: "val root = sum_list (map snd (records collapsed))"
    using F by (simp add: newFrame_def)
  have t: "tot = val root"
    using F by (simp add: newFrame_def)
  have s: "\<And>path. selfAt root path = endCount path (records collapsed)"
    using F by (simp add: selfAt_newFrame)
  have n: "\<And>path node. nodeAt root path = Some node \<Longrightarrow>
      val node = childSum node + endCount path (records collapsed)"
  proof -
    fix path node
    assume "nodeAt root path = Some node"
    then have "val node - childSum node = endCount path (records collapsed)"
      using s [of path] by (simp add: selfAt_def)
    then show "val node = childSum node + endCount path (records collapsed)"
      by (simp add: algebra_simps)
  qed
  have r: "val root = childSum root"
    using n [of "[]" root] endCount_Nil [of "scanLines collapsed"]
    by (simp add: records_def)
  show ?thesis
    using v t r n by auto
qed


theorem tree_conservation_witness:
  "parseCollapsed foldedExample = (treeExample, 3) \<and>
   records foldedExample = [([''a'', ''b''], 2), ([''a'', ''c''], 1)] \<and>
   val treeExample = 3 \<and> childSum treeExample = 3 \<and>
   nodeAt treeExample [''a''] =
     Some (Frame ''a'' 3 [(''b'', Frame ''b'' 2 []), (''c'', Frame ''c'' 1 [])]) \<and>
   endCount [''a''] (records foldedExample) = 0 \<and>
   childSum (Frame ''a'' 3 [(''b'', Frame ''b'' 2 []), (''c'', Frame ''c'' 1 [])]) = 3 \<and>
   nodeAt treeExample [''a'', ''b''] = Some (Frame ''b'' 2 []) \<and>
   endCount [''a'', ''b''] (records foldedExample) = 2 \<and>
   childSum (Frame ''b'' 2 []) = 0"
proof -
  have n: "nodeAt treeExample [''a''] =
      Some (Frame ''a'' 3 [(''b'', Frame ''b'' 2 []), (''c'', Frame ''c'' 1 [])])"
    by (simp add: treeExample_def)
  have m: "nodeAt treeExample [''a'', ''b''] = Some (Frame ''b'' 2 [])"
    by (simp add: treeExample_def)
  have e: "endCount [''a''] (records foldedExample) = 0"
    by (simp add: records_examples endCount_def)
  have e2: "endCount [''a'', ''b''] (records foldedExample) = 2"
    by (simp add: records_examples endCount_def)
  show ?thesis
    using tree_conservation [OF parse_example] n m e e2 parse_example
    by (simp add: records_examples childSum_def treeExample_def)
qed


section \<open>The widths of the rectangles\<close>

lemma renderChildren_rects:
  "renderChildren fl f names childX baseY width frameHeight fontSize tot depth scheme =
     concat (map (\<lambda>(child, x, w).
         renderFrame fl child x baseY w frameHeight fontSize tot (depth + 1) scheme)
       (childRects fl f names childX width))"
  by (induction names arbitrary: childX)
     (simp_all add: renderChildren.simps Let_def split: option.splits)

lemma childRects_visits:
  "set names \<subseteq> fst ` set (children f) \<Longrightarrow>
     map fst (childRects fl f names x width) =
       map (\<lambda>nm. case map_of (children f) nm of None \<Rightarrow> newFrame nm | Some c \<Rightarrow> c) names"
proof (induction names arbitrary: x)
  case Nil
  then show ?case by simp
next
  case (Cons nm names)
  then obtain c where "map_of (children f) nm = Some c"
    by (metis list.set_intros(1) map_of_eq_None_iff not_Some_eq subsetD)
  then show ?case using Cons by (simp add: Let_def)
qed

lemma childRects_width:
  "r \<in> set (childRects fl f names x width) \<Longrightarrow>
     snd (snd r) = childWidth fl width (val (fst r)) (val f)"
  by (induction names arbitrary: x) (auto simp: Let_def split: option.splits)

lemma mset_visited:
  assumes "distinct (map fst ch)"
  shows "mset (map (\<lambda>nm. case map_of ch nm of None \<Rightarrow> newFrame nm | Some c \<Rightarrow> c)
            (sort (map fst ch))) = mset (map snd ch)"
proof -
  let ?g = "\<lambda>nm. case map_of ch nm of None \<Rightarrow> newFrame nm | Some c \<Rightarrow> c"
  have "\<And>a b. (a, b) \<in> set ch \<Longrightarrow> ?g a = b"
    by (simp add: map_of_is_SomeI [OF assms])
  then have L: "map ?g (map fst ch) = map snd ch"
    by auto
  have "mset (map ?g (sort (map fst ch))) = mset (map ?g (map fst ch))"
    by (simp only: mset_map mset_sort)
  then show ?thesis by (simp only: L)
qed

lemma mset_rects:
  assumes "distinct (map fst (children f))"
  shows "mset (map fst (childRects fl f (sort (map fst (children f))) x width)) =
         mset (map snd (children f))"
proof -
  have "set (sort (map fst (children f))) \<subseteq> fst ` set (children f)" by simp
  from childRects_visits [OF this]
  have "map fst (childRects fl f (sort (map fst (children f))) x width) =
      map (\<lambda>nm. case map_of (children f) nm of None \<Rightarrow> newFrame nm | Some c \<Rightarrow> c)
        (sort (map fst (children f)))" .
  then show ?thesis
    by (simp only: mset_visited [OF assms])
qed


lemma sint_pos: "0 \<le> sint (w :: goint) \<Longrightarrow> w \<noteq> 0 \<Longrightarrow> 0 < sint w"
  by (metis abs_of_nonneg signed_0 word_eq_iff_signed zero_less_abs_iff)

lemma sdiv_nonneg: "0 \<le> a \<Longrightarrow> 0 < b \<Longrightarrow> (a::int) sdiv b = a div b"
  by (simp add: signed_divide_int_def sgn_if)

lemma floor_sum_le:
  "0 < (F::int) \<Longrightarrow> sum_list (map (\<lambda>c. (W * c) div F) cs) * F \<le> W * sum_list cs"
proof (induction cs)
  case Nil
  then show ?case by simp
next
  case (Cons c cs)
  have "(W * c) div F * F + (W * c) mod F = W * c" by simp
  moreover have "0 \<le> (W * c) mod F" using Cons.prems by simp
  ultimately have "(W * c) div F * F \<le> W * c" by linarith
  then show ?case
    using Cons by (simp add: algebra_simps)
qed

lemma share_sum:
  assumes "0 < (F::int)" "0 \<le> W" "sum_list cs \<le> F"
  shows "sum_list (map (\<lambda>c. (W * c) div F) cs) \<le> W"
proof -
  have "sum_list (map (\<lambda>c. (W * c) div F) cs) * F \<le> W * sum_list cs"
    by (rule floor_sum_le [OF assms(1)])
  also have "\<dots> \<le> W * F"
    using assms by (simp add: mult_left_mono)
  finally show ?thesis
    using assms(1) by simp
qed

lemma share_sum_exact:
  assumes "0 < (F::int)" "sum_list cs = F" "\<forall>c \<in> set cs. F dvd W * c"
  shows "sum_list (map (\<lambda>c. (W * c) div F) cs) = W"
proof -
  have "sum_list (map (\<lambda>c. (W * c) div F) cs) * F = W * sum_list cs"
    using assms(3)
  proof (induction cs)
    case Nil
    then show ?case by simp
  next
    case (Cons c cs)
    then have "(W * c) div F * F = W * c" by simp
    then show ?case using Cons by (simp add: algebra_simps)
  qed
  then show ?thesis using assms by simp
qed

lemma sum_list_mset_cong:
  "mset xs = mset ys \<Longrightarrow> sum_list (map h xs) = (sum_list (map h ys) :: int)"
  by (metis mset_map sum_mset_sum_list)

lemma good_simps:
  "good f = (0 \<le> sint (val f) \<and> distinct (map fst (children f)) \<and>
      (\<forall>c \<in> set (map snd (children f)). 0 < sint (val c) \<and> good c) \<and>
      sum_list (map (\<lambda>c. sint (val c)) (map snd (children f))) \<le> sint (val f))"
  by (cases f) simp

lemma good_child:
  "good f \<Longrightarrow> c \<in> set (map snd (children f)) \<Longrightarrow> 0 < sint (val c) \<and> good c"
  by (cases f) auto

lemma sum_map_nonneg:
  "\<forall>c \<in> set cs. 0 \<le> h c \<Longrightarrow> (0::int) \<le> sum_list (map h cs)"
  by (induction cs) auto

lemma member_le_sum:
  "\<forall>c \<in> set cs. 0 \<le> h c \<Longrightarrow> c \<in> set cs \<Longrightarrow> (h c :: int) \<le> sum_list (map h cs)"
proof (induction cs)
  case Nil
  then show ?case by simp
next
  case (Cons a cs)
  have "0 \<le> sum_list (map h cs)"
    using Cons.prems(1) by (simp add: sum_map_nonneg)
  moreover have "0 \<le> h a" using Cons.prems(1) by simp
  ultimately show ?case
    using Cons by (cases "c = a") auto
qed

lemma in_range:
  assumes "good f" "val f \<noteq> 0" "1 \<le> width" "width * sint (val f) < 2 ^ 53"
    and "c \<in> set (map snd (children f))"
  shows "exactRange width (sint (val c)) (sint (val f))" and "0 < sint (val c)"
proof -
  have F: "0 < sint (val f)"
    using assms(1,2) good_simps [of f] by (simp add: sint_pos)
  show C: "0 < sint (val c)" using good_child [OF assms(1,5)] by simp
  have nn: "\<forall>c \<in> set (map snd (children f)). 0 \<le> sint (val c)"
    using good_child [OF assms(1)] by (simp add: order_less_imp_le)
  have "sint (val c) \<le> sum_list (map (\<lambda>c. sint (val c)) (map snd (children f)))"
    by (rule member_le_sum [OF nn assms(5)])
  also have "\<dots> \<le> sint (val f)"
    using assms(1) good_simps [of f] by simp
  finally have le: "sint (val c) \<le> sint (val f)" .
  have a: "width * sint (val c) \<le> width * sint (val f)"
    using le assms(3) by (simp add: mult_left_mono)
  have "width * 1 \<le> width * sint (val f)"
    using F assms(3) by (intro mult_left_mono) simp_all
  then have b: "width \<le> width * sint (val f)" by simp
  have "1 * sint (val f) \<le> width * sint (val f)"
    using F assms(3) by (intro mult_right_mono) simp_all
  then have c: "sint (val f) \<le> width * sint (val f)" by simp
  have d: "0 \<le> width * sint (val c)" using C assms(3) by simp
  have "\<bar>width\<bar> < 2 ^ 53" using b assms(3,4) by linarith
  moreover have "\<bar>sint (val c)\<bar> < 2 ^ 53" using c le C assms(4) by linarith
  moreover have "\<bar>sint (val f)\<bar> < 2 ^ 53" using c F assms(4) by linarith
  moreover have "\<bar>width * sint (val c)\<bar> < 2 ^ 53" using a d assms(4) by linarith
  ultimately show "exactRange width (sint (val c)) (sint (val f))"
    unfolding exactRange_def by (intro conjI)
qed

lemma scale_exact:
  assumes "good f" "val f \<noteq> 0" "1 \<le> width" "width * sint (val f) < 2 ^ 53"
    and "c \<in> set (map snd (children f))"
  shows "scaleWidth fl width (val c) (val f) = (width * sint (val c)) div sint (val f)"
proof -
  have F: "0 < sint (val f)"
    using assms(1,2) good_simps [of f] by (simp add: sint_pos)
  have "0 \<le> width * sint (val c)"
    using in_range(2) [OF assms] assms(3) by simp
  then show ?thesis
    using in_range(1) [OF assms] by (simp add: scaleWidth_def sdiv_nonneg [OF _ F])
qed

lemma rects_children:
  assumes "good f" and "r \<in> set (childRects fl f (sort (map fst (children f))) 0 width)"
  shows "fst r \<in> set (map snd (children f))"
proof -
  have d: "distinct (map fst (children f))"
    using assms(1) good_simps [of f] by simp
  have "fst r \<in> set (map fst (childRects fl f (sort (map fst (children f))) 0 width))"
    using assms(2) by simp
  then show ?thesis
    using mset_rects [OF d, of fl 0 width] by (metis set_mset_mset)
qed

lemma shares_floor:
  assumes "good f" "val f \<noteq> 0" "1 \<le> width" "width * sint (val f) < 2 ^ 53"
  shows "childShares fl f width =
     map (\<lambda>c. (width * sint (val c)) div sint (val f))
       (map fst (childRects fl f (sort (map fst (children f))) 0 width))"
  unfolding childShares_def map_map comp_def
  by (rule map_cong [OF refl]) (simp add: scale_exact [OF assms rects_children [OF assms(1)]])

lemma shares_eq:
  assumes "good f" "val f \<noteq> 0" "1 \<le> width" "width * sint (val f) < 2 ^ 53"
  shows "sum_list (childShares fl f width) =
         sum_list (map (\<lambda>c. (width * sint (val c)) div sint (val f)) (map snd (children f)))"
proof -
  have d: "distinct (map fst (children f))"
    using assms(1) good_simps [of f] by simp
  show ?thesis
    unfolding shares_floor [OF assms]
    by (rule sum_list_mset_cong [OF mset_rects [OF d]])
qed

lemma shares_sum_le:
  assumes "good f" "val f \<noteq> 0" "1 \<le> width" "width * sint (val f) < 2 ^ 53"
  shows "sum_list (childShares fl f width) \<le> width"
proof -
  have F: "0 < sint (val f)"
    using assms(1,2) good_simps [of f] by (simp add: sint_pos)
  have w0: "0 \<le> width" using assms(3) by simp
  have s: "sum_list (map (\<lambda>c. sint (val c)) (map snd (children f))) \<le> sint (val f)"
    using assms(1) good_simps [of f] by simp
  have "sum_list (map (\<lambda>c. (width * sint (val c)) div sint (val f)) (map snd (children f))) =
      sum_list (map (\<lambda>c. (width * c) div sint (val f))
        (map (\<lambda>c. sint (val c)) (map snd (children f))))"
    by (simp add: comp_def)
  also have "\<dots> \<le> width"
    by (rule share_sum [OF F w0 s])
  finally show ?thesis
    by (simp only: shares_eq [OF assms])
qed

lemma shares_nonneg:
  assumes "good f" "val f \<noteq> 0" "1 \<le> width" "width * sint (val f) < 2 ^ 53"
  shows "\<forall>s \<in> set (childShares fl f width). 0 \<le> s"
proof
  fix s assume "s \<in> set (childShares fl f width)"
  then obtain r where r: "r \<in> set (childRects fl f (sort (map fst (children f))) 0 width)"
    and s: "s = (width * sint (val (fst r))) div sint (val f)"
    unfolding shares_floor [OF assms] by auto
  have F: "0 < sint (val f)"
    using assms(1,2) good_simps [of f] by (simp add: sint_pos)
  have "0 < sint (val (fst r))"
    using good_child [OF assms(1) rects_children [OF assms(1) r]] by simp
  then have "0 \<le> width * sint (val (fst r))"
    using assms(3) by simp
  then show "0 \<le> s"
    using F by (simp add: s pos_imp_zdiv_nonneg_iff)
qed

lemma widths_clamp:
  "childWidths fl f width = map (\<lambda>s. if s < 1 then 1 else s) (childShares fl f width)"
  unfolding childWidths_def childShares_def map_map
  by (rule map_cong [OF refl]) (simp add: childRects_width childWidth_def Let_def)

lemma clamp_sum:
  "\<forall>s \<in> set ss. 0 \<le> (s::int) \<Longrightarrow>
     sum_list (map (\<lambda>s. if s < 1 then 1 else s) ss) =
       sum_list ss + int (length (filter (\<lambda>s. s < 1) ss))"
  by (induction ss) auto

lemma clamp_id:
  "\<forall>s \<in> set ss. 1 \<le> (s::int) \<Longrightarrow> map (\<lambda>s. if s < 1 then 1 else s) ss = ss"
  by (induction ss) auto


lemma sint_add_no_overflow:
  "0 \<le> sint a \<Longrightarrow> 0 \<le> sint b \<Longrightarrow> sint a + sint b < 2 ^ 63 \<Longrightarrow>
     sint (a + b :: goint) = sint a + sint b"
  by (simp add: sint_word_add signed_take_bit_int_eq_self)

lemma sum_int_update:
  "sum_list (map (\<lambda>c. sint (val c)) (map snd (AList.update k x ch))) =
     sum_list (map (\<lambda>c. sint (val c)) (map snd ch))
       - (case map_of ch k of None \<Rightarrow> 0 | Some y \<Rightarrow> sint (val y)) + sint (val x)"
  by (induction ch) auto

lemma snd_update_cases:
  "c \<in> set (map snd (AList.update k v al)) \<Longrightarrow> c = v \<or> c \<in> set (map snd al)"
  by (induction al) (auto split: if_splits)

lemma good_newFrame: "good (newFrame k)"
  by (simp add: newFrame_def)

lemma good_bump:
  "good f \<Longrightarrow> 0 < sint c \<Longrightarrow> sint (val f) + sint c < 2 ^ 63 \<Longrightarrow>
     good (bumpFrame fr c f) \<and> sint (val (bumpFrame fr c f)) = sint (val f) + sint c"
proof (induction fr arbitrary: f)
  case Nil
  have v: "0 \<le> sint (val f)" using Nil.prems(1) good_simps [of f] by simp
  have a: "sint (val f + c) = sint (val f) + sint c"
    using v Nil.prems by (simp add: sint_add_no_overflow)
  show ?case
    using Nil.prems good_simps [of f] a
    by (simp add: bumpFrame_def)
next
  case (Cons k rest)
  define child0 where
    "child0 = (case map_of (children f) k of None \<Rightarrow> newFrame k | Some x \<Rightarrow> x)"
  define child1 where "child1 = bumpFrame rest c child0"
  have v: "0 \<le> sint (val f)" using Cons.prems(1) good_simps [of f] by simp
  have s: "sum_list (map (\<lambda>c. sint (val c)) (map snd (children f))) \<le> sint (val f)"
    using Cons.prems(1) good_simps [of f] by simp
  have d: "distinct (map fst (children f))"
    using Cons.prems(1) good_simps [of f] by simp
  have nn: "\<forall>x \<in> set (map snd (children f)). 0 \<le> sint (val x)"
    using good_child [OF Cons.prems(1)] by (auto simp: order_less_imp_le)
  have a: "sint (val f + c) = sint (val f) + sint c"
    using v Cons.prems by (simp add: sint_add_no_overflow)
  have old: "(case map_of (children f) k of None \<Rightarrow> 0 | Some y \<Rightarrow> sint (val y)) =
      sint (val child0)"
    by (simp add: child0_def newFrame_def split: option.splits)
  have g0: "good child0 \<and> 0 \<le> sint (val child0) \<and> sint (val child0) \<le> sint (val f)"
  proof (cases "map_of (children f) k")
    case None
    then show ?thesis using v by (simp add: child0_def good_newFrame newFrame_def)
  next
    case (Some x)
    then have m: "x \<in> set (map snd (children f))"
      by (metis map_of_SomeD set_zip_rightD zip_map_fst_snd)
    have "sint (val x) \<le> sum_list (map (\<lambda>c. sint (val c)) (map snd (children f)))"
      by (rule member_le_sum [OF nn m])
    then show ?thesis
      using Some s good_child [OF Cons.prems(1) m] by (simp add: child0_def)
  qed
  then have "sint (val child0) + sint c < 2 ^ 63"
    using Cons.prems(3) by linarith
  from Cons.IH [OF _ Cons.prems(2) this] g0
  have g1: "good child1" and v1: "sint (val child1) = sint (val child0) + sint c"
    by (simp_all add: child1_def)
  have ch: "children (bumpFrame (k # rest) c f) = AList.update k child1 (children f)"
    by (simp add: bumpFrame_def child0_def child1_def Let_def)
  have mem: "\<forall>x \<in> set (map snd (AList.update k child1 (children f))).
      0 < sint (val x) \<and> good x"
  proof
    fix x assume "x \<in> set (map snd (AList.update k child1 (children f)))"
    then have "x = child1 \<or> x \<in> set (map snd (children f))"
      by (rule snd_update_cases)
    then show "0 < sint (val x) \<and> good x"
      using g1 v1 g0 Cons.prems(2) good_child [OF Cons.prems(1)] by auto
  qed
  have sum: "sum_list (map (\<lambda>c. sint (val c)) (map snd (AList.update k child1 (children f))))
      \<le> sint (val f) + sint c"
    unfolding sum_int_update old v1 using s by simp
  have "good (Frame (name f) (val f + c) (AList.update k child1 (children f)))"
    using a v Cons.prems(2) d mem sum by (simp add: distinct_update)
  moreover have "bumpFrame (k # rest) c f =
      Frame (name f) (val f + c) (AList.update k child1 (children f))"
    using ch by (simp add: bumpFrame_def)
  ultimately show ?case
    using a by (simp add: val_bumpFrame)
qed

lemma good_foldl:
  "foldl addLine (root, tot) ls = (root', tot') \<Longrightarrow> good root \<Longrightarrow>
   \<forall>r \<in> set (List.map_filter lineRecord ls). 0 < sint (snd r) \<Longrightarrow>
   sint (val root) + sum_list (map (\<lambda>r. sint (snd r)) (List.map_filter lineRecord ls)) < 2 ^ 63 \<Longrightarrow>
   good root'"
proof (induction ls arbitrary: root tot)
  case Nil
  then show ?case by simp
next
  case (Cons l ls)
  show ?case
  proof (cases "lineRecord l")
    case None
    then have "foldl addLine (root, tot) ls = (root', tot')"
      using Cons.prems(1) by (simp add: addLine_record)
    from Cons.IH [OF this Cons.prems(2)] show ?thesis
      using None Cons.prems(3,4) by simp
  next
    case (Some r)
    obtain fr c where r: "r = (fr, c)" by (cases r)
    have f: "foldl addLine (bumpFrame fr c root, tot + c) ls = (root', tot')"
      using Cons.prems(1) Some r by (simp add: addLine_record)
    have c: "0 < sint c" using Cons.prems(3) Some r by simp
    have rest: "\<forall>r \<in> set (List.map_filter lineRecord ls). 0 < sint (snd r)"
      using Cons.prems(3) Some by simp
    then have "0 \<le> sum_list (map (\<lambda>r. sint (snd r)) (List.map_filter lineRecord ls))"
      by (intro sum_map_nonneg) (simp add: order_less_imp_le)
    then have b: "sint (val root) + sint c < 2 ^ 63"
      using Cons.prems(4) Some r by simp
    from good_bump [OF Cons.prems(2) c b]
    have g: "good (bumpFrame fr c root)"
      and v: "sint (val (bumpFrame fr c root)) = sint (val root) + sint c"
      by simp_all
    show ?thesis
      using Cons.IH [OF f g rest] Cons.prems(4) Some r v by simp
  qed
qed

lemma good_nodeAt: "good f \<Longrightarrow> nodeAt f path = Some n \<Longrightarrow> good n"
proof (induction path arbitrary: f)
  case Nil
  then show ?case by simp
next
  case (Cons k ks)
  then obtain c where c: "map_of (children f) k = Some c" and n: "nodeAt c ks = Some n"
    by (auto split: option.splits)
  have "c \<in> set (map snd (children f))"
    using c by (metis map_of_SomeD set_zip_rightD zip_map_fst_snd)
  then have "good c" using good_child [OF Cons.prems(1)] by blast
  then show ?case using Cons.IH n by blast
qed

lemma good_parse:
  assumes "parseCollapsed collapsed = (root, tot)"
    and "\<forall>r \<in> set (records collapsed). 0 < sint (snd r)"
    and "sum_list (map (\<lambda>r. sint (snd r)) (records collapsed)) < 2 ^ 63"
  shows "good root"
proof -
  have f: "foldl addLine (newFrame ''root'', 0) (scanLines collapsed) = (root, tot)"
    using assms(1) by (simp add: parseCollapsed_def)
  show ?thesis
    using good_foldl [OF f good_newFrame] assms(2,3)
    by (simp add: records_def newFrame_def)
qed


lemma lineRecord_more:
  "lineRecord ''a;x 1'' = Some ([''a'', ''x''], 1)"
  "lineRecord ''a;y 1'' = Some ([''a'', ''y''], 1)"
  "lineRecord ''b 2358'' = Some ([''b''], 2358)"
  "lineRecord ''x 1'' = Some ([''x''], 1)"
  "lineRecord ''y 1'' = Some ([''y''], 1)"
  by (simp_all add: lineRecord_def scanCount_def go_eval)

lemma scanLines_more:
  "scanLines foldedNarrow = [''a;x 1'', ''a;y 1'', ''b 2358'']"
  "scanLines foldedEven = [''x 1'', ''y 1'']"
  by (simp_all add: foldedNarrow_def foldedEven_def scanLines_def nl_def
        MaxScanTokenSize_def dropCR_def)

lemma records_more:
  "records foldedNarrow = [([''a'', ''x''], 1), ([''a'', ''y''], 1), ([''b''], 2358)]"
  "records foldedEven = [([''x''], 1), ([''y''], 1)]"
  by (simp_all add: records_def scanLines_more lineRecord_more)

lemma parse_narrow:
  "parseCollapsed foldedNarrow =
     (Frame ''root'' 2360
        [(''a'', Frame ''a'' 2 [(''x'', Frame ''x'' 1 []), (''y'', Frame ''y'' 1 [])]),
         (''b'', Frame ''b'' 2358 [])], 2360)"
  unfolding parseCollapsed_def scanLines_more
  by (simp add: addLine_record lineRecord_more bumpFrame_def newFrame_def)

lemma parse_even:
  "parseCollapsed foldedEven =
     (Frame ''root'' 2 [(''x'', Frame ''x'' 1 []), (''y'', Frame ''y'' 1 [])], 2)"
  unfolding parseCollapsed_def scanLines_more
  by (simp add: addLine_record lineRecord_more bumpFrame_def newFrame_def)

lemmas width_eval =
  childWidths_def childShares_def childWidth_def scaleWidth_def exactRange_def
  signed_divide_int_def Let_def

text \<open>
  Claim C2 as it is stated fails.  With the default width the chart is 1180 pixels wide;
  in the tree of \<open>a;x 1\<close>, \<open>a;y 1\<close>, \<open>b 2358\<close> the node \<open>a\<close> is drawn one pixel
  wide, and each of its two children is drawn one pixel wide: two pixels in a parent of
  one.  The numbers are small, so the arithmetic of line 174 is exact here.
\<close>

theorem widths_counterexample:
  "\<forall>fl. (case parseCollapsed foldedNarrow of
      (root, tot) \<Rightarrow>
        childWidths fl root 1180 = [1, 1179] \<and>
        (case nodeAt root [''a''] of
           None \<Rightarrow> False
         | Some a \<Rightarrow>
             val a \<noteq> 0 \<and> childWidths fl a 1 = [1, 1] \<and> \<not> sum_list (childWidths fl a 1) \<le> 1))"
  by (simp add: parse_narrow width_eval)

text \<open>
  Claim C2, amended.  In a tree built from records with positive counts whose sum is
  below \<open>2^63\<close>, for every node that is drawn (its value is not zero and its width is
  at least 1) and for which \<open>width * f.value\<close> is below \<open>2^53\<close>, so that the arithmetic
  of line 174 is exact: the proportional share of a child is \<open>width * child.value /
  f.value\<close> rounded down, and the shares of the children sum to at most the width of the
  node; the width of a child's rectangle is its share, or one pixel when the share is
  below one pixel; so the widths of the children sum to the sum of the shares plus the
  number of shares below one pixel.  They sum to at most the width of the node when every
  share is at least one pixel, and to exactly that width when moreover the values of the
  children sum to the value of the node and every share is exact.
\<close>

theorem child_widths:
  "parseCollapsed collapsed = (root, tot) \<Longrightarrow>
   \<forall>r \<in> set (records collapsed). 0 < sint (snd r) \<Longrightarrow>
   sum_list (map (\<lambda>r. sint (snd r)) (records collapsed)) < 2 ^ 63 \<Longrightarrow>
   nodeAt root path = Some f \<Longrightarrow> val f \<noteq> 0 \<Longrightarrow> 1 \<le> width \<Longrightarrow>
   width * sint (val f) < 2 ^ 53 \<Longrightarrow>
     childShares fl f width =
       map (\<lambda>c. (width * sint (val c)) div sint (val f))
         (map fst (childRects fl f (sort (map fst (children f))) 0 width)) \<and>
     sum_list (childShares fl f width) \<le> width \<and>
     childWidths fl f width = map (\<lambda>s. if s < 1 then 1 else s) (childShares fl f width) \<and>
     sum_list (childWidths fl f width) =
       sum_list (childShares fl f width) +
       int (length (filter (\<lambda>s. s < 1) (childShares fl f width))) \<and>
     ((\<forall>s \<in> set (childShares fl f width). 1 \<le> s) \<longrightarrow>
        sum_list (childWidths fl f width) \<le> width) \<and>
     ((\<forall>s \<in> set (childShares fl f width). 1 \<le> s) \<and>
      sum_list (map (\<lambda>c. sint (val c)) (map snd (children f))) = sint (val f) \<and>
      (\<forall>c \<in> set (map snd (children f)). sint (val f) dvd width * sint (val c)) \<longrightarrow>
        sum_list (childWidths fl f width) = width)"
proof -
  assume p: "parseCollapsed collapsed = (root, tot)"
    and pos: "\<forall>r \<in> set (records collapsed). 0 < sint (snd r)"
    and bound: "sum_list (map (\<lambda>r. sint (snd r)) (records collapsed)) < 2 ^ 63"
    and n: "nodeAt root path = Some f" and v: "val f \<noteq> 0" and w: "1 \<le> width"
    and x: "width * sint (val f) < 2 ^ 53"
  have g: "good f"
    using good_nodeAt [OF good_parse [OF p pos bound] n] .
  have F: "0 < sint (val f)"
    using g v good_simps [of f] by (simp add: sint_pos)
  have fl: "childShares fl f width =
       map (\<lambda>c. (width * sint (val c)) div sint (val f))
         (map fst (childRects fl f (sort (map fst (children f))) 0 width))"
    by (rule shares_floor [OF g v w x])
  have le: "sum_list (childShares fl f width) \<le> width"
    by (rule shares_sum_le [OF g v w x])
  have cl: "childWidths fl f width = map (\<lambda>s. if s < 1 then 1 else s) (childShares fl f width)"
    by (rule widths_clamp)
  have sm: "sum_list (childWidths fl f width) =
      sum_list (childShares fl f width) + int (length (filter (\<lambda>s. s < 1) (childShares fl f width)))"
    unfolding cl by (rule clamp_sum [OF shares_nonneg [OF g v w x]])
  have big: "(\<forall>s \<in> set (childShares fl f width). 1 \<le> s) \<longrightarrow>
      sum_list (childWidths fl f width) \<le> width"
    using le by (simp add: cl clamp_id)
  have ex: "(\<forall>s \<in> set (childShares fl f width). 1 \<le> s) \<and>
      sum_list (map (\<lambda>c. sint (val c)) (map snd (children f))) = sint (val f) \<and>
      (\<forall>c \<in> set (map snd (children f)). sint (val f) dvd width * sint (val c)) \<longrightarrow>
        sum_list (childWidths fl f width) = width"
  proof (intro impI, elim conjE)
    assume a: "\<forall>s \<in> set (childShares fl f width). 1 \<le> s"
      and b: "sum_list (map (\<lambda>c. sint (val c)) (map snd (children f))) = sint (val f)"
      and c: "\<forall>c \<in> set (map snd (children f)). sint (val f) dvd width * sint (val c)"
    have c': "\<forall>c \<in> set (map (\<lambda>c. sint (val c)) (map snd (children f))).
        sint (val f) dvd width * c"
      using c by auto
    have "sum_list (childShares fl f width) =
        sum_list (map (\<lambda>c. (width * c) div sint (val f))
          (map (\<lambda>c. sint (val c)) (map snd (children f))))"
      by (simp add: shares_eq [OF g v w x] comp_def)
    also have "\<dots> = width"
      by (rule share_sum_exact [OF F b c'])
    finally show "sum_list (childWidths fl f width) = width"
      using a by (simp add: cl clamp_id)
  qed
  show ?thesis
    by (rule conjI [OF fl], rule conjI [OF le], rule conjI [OF cl], rule conjI [OF sm],
        rule conjI [OF big], rule ex)
qed

theorem child_widths_witness:
  "parseCollapsed foldedEven =
     (Frame ''root'' 2 [(''x'', Frame ''x'' 1 []), (''y'', Frame ''y'' 1 [])], 2) \<and>
   records foldedEven = [([''x''], 1), ([''y''], 1)] \<and>
   (1180::int) * 2 < 2 ^ 53 \<and>
   childShares floatsExample
     (Frame ''root'' 2 [(''x'', Frame ''x'' 1 []), (''y'', Frame ''y'' 1 [])]) 1180
     = [590, 590] \<and>
   sum_list (childWidths floatsExample
     (Frame ''root'' 2 [(''x'', Frame ''x'' 1 []), (''y'', Frame ''y'' 1 [])]) 1180) = 1180 \<and>
   records foldedNarrow = [([''a'', ''x''], 1), ([''a'', ''y''], 1), ([''b''], 2358)] \<and>
   childShares floatsExample
     (Frame ''a'' 2 [(''x'', Frame ''x'' 1 []), (''y'', Frame ''y'' 1 [])]) 1 = [0, 0] \<and>
   sum_list (childWidths floatsExample
     (Frame ''a'' 2 [(''x'', Frame ''x'' 1 []), (''y'', Frame ''y'' 1 [])]) 1) = 0 + 2"
proof -
  let ?even = "Frame ''root'' 2 [(''x'', Frame ''x'' 1 []), (''y'', Frame ''y'' 1 [])]"
  let ?a = "Frame ''a'' 2 [(''x'', Frame ''x'' 1 []), (''y'', Frame ''y'' 1 [])]"
  have pe: "\<forall>r \<in> set (records foldedEven). 0 < sint (snd r)"
    by (simp add: records_more)
  have be: "sum_list (map (\<lambda>r. sint (snd r)) (records foldedEven)) < 2 ^ 63"
    by (simp add: records_more)
  have ne: "nodeAt ?even [] = Some ?even" by simp
  have ve: "val ?even \<noteq> 0" by simp
  have xe: "1180 * sint (val ?even) < 2 ^ 53" by simp
  have se: "childShares floatsExample ?even 1180 = [590, 590]"
    by (simp add: width_eval)
  have pn: "\<forall>r \<in> set (records foldedNarrow). 0 < sint (snd r)"
    by (simp add: records_more)
  have bn: "sum_list (map (\<lambda>r. sint (snd r)) (records foldedNarrow)) < 2 ^ 63"
    by (simp add: records_more)
  have nn: "nodeAt (Frame ''root'' 2360 [(''a'', ?a), (''b'', Frame ''b'' 2358 [])]) [''a'']
      = Some ?a"
    by simp
  have vn: "val ?a \<noteq> 0" by simp
  have xn: "1 * sint (val ?a) < 2 ^ 53" by simp
  have sn: "childShares floatsExample ?a 1 = [0, 0]"
    by (simp add: width_eval)
  have one: "(1::int) \<le> 1180" "(1::int) \<le> 1" by simp_all
  show ?thesis
    using child_widths [OF parse_even pe be ne ve one(1) xe, of floatsExample]
      child_widths [OF parse_narrow pn bn nn vn one(2) xn, of floatsExample]
      parse_even se sn
    by (simp add: records_more width_eval)
qed


section \<open>The error of \<open>GenerateSVG\<close>\<close>

lemma sint_foldl:
  "foldl addLine (root, tot) ls = (root', tot') \<Longrightarrow> good root \<Longrightarrow>
   \<forall>r \<in> set (List.map_filter lineRecord ls). 0 < sint (snd r) \<Longrightarrow>
   sint (val root) + sum_list (map (\<lambda>r. sint (snd r)) (List.map_filter lineRecord ls)) < 2 ^ 63 \<Longrightarrow>
   sint (val root') =
     sint (val root) + sum_list (map (\<lambda>r. sint (snd r)) (List.map_filter lineRecord ls))"
proof (induction ls arbitrary: root tot)
  case Nil
  then show ?case by simp
next
  case (Cons l ls)
  show ?case
  proof (cases "lineRecord l")
    case None
    then have "foldl addLine (root, tot) ls = (root', tot')"
      using Cons.prems(1) by (simp add: addLine_record)
    from Cons.IH [OF this Cons.prems(2)] show ?thesis
      using None Cons.prems(3,4) by simp
  next
    case (Some r)
    obtain fr c where r: "r = (fr, c)" by (cases r)
    have f: "foldl addLine (bumpFrame fr c root, tot + c) ls = (root', tot')"
      using Cons.prems(1) Some r by (simp add: addLine_record)
    have c: "0 < sint c" using Cons.prems(3) Some r by simp
    have rest: "\<forall>r \<in> set (List.map_filter lineRecord ls). 0 < sint (snd r)"
      using Cons.prems(3) Some by simp
    then have "0 \<le> sum_list (map (\<lambda>r. sint (snd r)) (List.map_filter lineRecord ls))"
      by (intro sum_map_nonneg) (simp add: order_less_imp_le)
    then have b: "sint (val root) + sint c < 2 ^ 63"
      using Cons.prems(4) Some r by simp
    from good_bump [OF Cons.prems(2) c b]
    have g: "good (bumpFrame fr c root)"
      and v: "sint (val (bumpFrame fr c root)) = sint (val root) + sint c"
      by simp_all
    show ?thesis
      using Cons.IH [OF f g rest] Cons.prems(4) Some r v by simp
  qed
qed

lemma total_sint:
  assumes "parseCollapsed collapsed = (root, tot)"
    and "\<forall>r \<in> set (records collapsed). 0 < sint (snd r)"
    and "sum_list (map (\<lambda>r. sint (snd r)) (records collapsed)) < 2 ^ 63"
  shows "sint tot = sum_list (map (\<lambda>r. sint (snd r)) (records collapsed))"
proof -
  have f: "foldl addLine (newFrame ''root'', 0) (scanLines collapsed) = (root, tot)"
    using assms(1) by (simp add: parseCollapsed_def)
  have "tot = val root"
    using foldl_addLine [OF f] by (simp add: newFrame_def)
  moreover have "sint (val root) = sum_list (map (\<lambda>r. sint (snd r)) (records collapsed))"
    using sint_foldl [OF f good_newFrame] assms(2,3)
    by (simp add: records_def newFrame_def)
  ultimately show ?thesis by simp
qed

lemma sum_pos:
  "\<forall>x \<in> set xs. 0 < h x \<Longrightarrow> xs \<noteq> [] \<Longrightarrow> (0::int) < sum_list (map h xs)"
proof (induction xs)
  case Nil
  then show ?case by simp
next
  case (Cons x xs)
  have "0 \<le> sum_list (map h xs)"
    using Cons.prems(1) by (intro sum_map_nonneg) (simp add: order_less_imp_le)
  then show ?case using Cons.prems(1) by simp
qed

lemma total_zero_iff:
  assumes "parseCollapsed collapsed = (root, tot)"
    and "\<forall>r \<in> set (records collapsed). 0 < sint (snd r)"
    and "sum_list (map (\<lambda>r. sint (snd r)) (records collapsed)) < 2 ^ 63"
  shows "tot = 0 \<longleftrightarrow> records collapsed = []"
proof
  assume "tot = 0"
  then have "sum_list (map (\<lambda>r. sint (snd r)) (records collapsed)) = 0"
    using total_sint [OF assms] by simp
  then show "records collapsed = []"
    using sum_pos [OF assms(2)] by force
next
  assume "records collapsed = []"
  then have "sint tot = 0" using total_sint [OF assms] by simp
  then show "tot = 0" by (metis signed_eq_0_iff)
qed

lemma parse_total:
  "snd (parseCollapsed collapsed) = sum_list (map snd (records collapsed))"
proof -
  obtain root tot where p: "parseCollapsed collapsed = (root, tot)"
    by (cases "parseCollapsed collapsed")
  then have "foldl addLine (newFrame ''root'', 0) (scanLines collapsed) = (root, tot)"
    by (simp add: parseCollapsed_def)
  from foldl_addLine [OF this] show ?thesis
    by (simp add: p records_def)
qed

lemma parse_cancel:
  "scanLines foldedCancel = [''a 5'', ''b -5'']"
  "lineRecord ''a 5'' = Some ([''a''], 5)"
  "lineRecord ''b -5'' = Some ([''b''], - 5)"
  by (simp_all add: foldedCancel_def lineRecord_def scanCount_def go_eval)

text \<open>
  Claim C4 as it is stated equates a total of zero with an input that has no valid
  record.  The input of the two records \<open>a 5\<close> and \<open>b -5\<close> has two valid records, both
  enter the tree, their counts sum to zero, and \<open>GenerateSVG\<close> returns the error.
\<close>

theorem GenerateSVG_counterexample:
  "records foldedCancel = [([''a''], 5), ([''b''], - 5)] \<and>
   parseCollapsed foldedCancel =
     (Frame ''root'' 0 [(''a'', Frame ''a'' 5 []), (''b'', Frame ''b'' (- 5) [])], 0) \<and>
   (\<forall>fl opts. GenerateSVG fl foldedCancel opts = ([], Some NoSamples))"
proof -
  have r: "records foldedCancel = [([''a''], 5), ([''b''], - 5)]"
    by (simp add: records_def parse_cancel)
  have p: "parseCollapsed foldedCancel =
     (Frame ''root'' 0 [(''a'', Frame ''a'' 5 []), (''b'', Frame ''b'' (- 5) [])], 0)"
    unfolding parseCollapsed_def parse_cancel
    by (simp add: addLine_record parse_cancel bumpFrame_def newFrame_def)
  show ?thesis using r p by (simp add: GenerateSVG_def)
qed

text \<open>
  Claim C4, amended.  The total sample count is the sum of the counts of the valid records
  in Go's 64-bit arithmetic.  \<open>GenerateSVG\<close> returns the error exactly when this total is
  zero, and it has then written nothing; otherwise it returns no error.  An input with a
  positive total is rendered (the output is not empty), also when its tree is a single
  node below the root.  An input with no valid record is an error.  When the counts of
  the records are positive and their sum is below \<open>2^63\<close>, the error is returned exactly
  when the input has no valid record.
\<close>

theorem GenerateSVG_error:
  "snd (parseCollapsed collapsed) = sum_list (map snd (records collapsed)) \<and>
   (snd (GenerateSVG fl collapsed opts) = Some NoSamples \<longleftrightarrow>
      sum_list (map snd (records collapsed)) = 0) \<and>
   (snd (GenerateSVG fl collapsed opts) = None \<longleftrightarrow>
      sum_list (map snd (records collapsed)) \<noteq> 0) \<and>
   (snd (GenerateSVG fl collapsed opts) \<noteq> None \<longrightarrow>
      fst (GenerateSVG fl collapsed opts) = []) \<and>
   (0 < sint (sum_list (map snd (records collapsed))) \<longrightarrow>
      snd (GenerateSVG fl collapsed opts) = None \<and>
      fst (GenerateSVG fl collapsed opts) \<noteq> []) \<and>
   (records collapsed = [] \<longrightarrow>
      GenerateSVG fl collapsed opts = ([], Some NoSamples)) \<and>
   ((\<forall>r \<in> set (records collapsed). 0 < sint (snd r)) \<and>
    sum_list (map (\<lambda>r. sint (snd r)) (records collapsed)) < 2 ^ 63 \<longrightarrow>
      (snd (GenerateSVG fl collapsed opts) = Some NoSamples \<longleftrightarrow>
         records collapsed = []))"
proof -
  obtain root tot where p: "parseCollapsed collapsed = (root, tot)"
    by (cases "parseCollapsed collapsed")
  have t: "tot = sum_list (map snd (records collapsed))"
    using parse_total [of collapsed] by (simp add: p)
  have e: "tot = 0 \<Longrightarrow> GenerateSVG fl collapsed opts = ([], Some NoSamples)"
    by (simp add: GenerateSVG_def p Let_def)
  have s: "tot \<noteq> 0 \<Longrightarrow> snd (GenerateSVG fl collapsed opts) = None \<and>
      fst (GenerateSVG fl collapsed opts) \<noteq> []"
    by (simp add: GenerateSVG_def p Let_def writeSVG_nonempty)
  have pos: "0 < sint tot \<Longrightarrow> tot \<noteq> 0" by auto
  have c0: "snd (parseCollapsed collapsed) = sum_list (map snd (records collapsed))"
    by (rule parse_total)
  have c1: "snd (GenerateSVG fl collapsed opts) = Some NoSamples \<longleftrightarrow>
      sum_list (map snd (records collapsed)) = 0"
    using e s by (cases "tot = 0") (simp_all add: t)
  have c2: "snd (GenerateSVG fl collapsed opts) = None \<longleftrightarrow>
      sum_list (map snd (records collapsed)) \<noteq> 0"
    using e s by (cases "tot = 0") (simp_all add: t)
  have c3: "snd (GenerateSVG fl collapsed opts) \<noteq> None \<longrightarrow>
      fst (GenerateSVG fl collapsed opts) = []"
    using e s by (cases "tot = 0") simp_all
  have c4: "0 < sint (sum_list (map snd (records collapsed))) \<longrightarrow>
      snd (GenerateSVG fl collapsed opts) = None \<and>
      fst (GenerateSVG fl collapsed opts) \<noteq> []"
    using s pos by (simp add: t)
  have c5: "records collapsed = [] \<longrightarrow>
      GenerateSVG fl collapsed opts = ([], Some NoSamples)"
    using e by (simp add: t)
  have c6: "(\<forall>r \<in> set (records collapsed). 0 < sint (snd r)) \<and>
    sum_list (map (\<lambda>r. sint (snd r)) (records collapsed)) < 2 ^ 63 \<longrightarrow>
      (snd (GenerateSVG fl collapsed opts) = Some NoSamples \<longleftrightarrow>
         records collapsed = [])"
    using total_zero_iff [OF p] c1 by (simp add: t)
  show ?thesis
    by (rule conjI [OF c0], rule conjI [OF c1], rule conjI [OF c2], rule conjI [OF c3],
        rule conjI [OF c4], rule conjI [OF c5], rule c6)
qed

theorem GenerateSVG_error_witness:
  "records foldedExample = [([''a'', ''b''], 2), ([''a'', ''c''], 1)] \<and>
   0 < sint (sum_list (map snd (records foldedExample))) \<and>
   snd (GenerateSVG floatsExample foldedExample DefaultSVGOptions) = None \<and>
   fst (GenerateSVG floatsExample foldedExample DefaultSVGOptions) \<noteq> [] \<and>
   records ''junk'' = [] \<and>
   GenerateSVG floatsExample ''junk'' DefaultSVGOptions = ([], Some NoSamples)"
proof -
  have h: "0 < sint (sum_list (map snd (records foldedExample)))"
    by (simp add: records_examples)
  have l: "scanLines ''junk'' = [''junk'']"
    by (simp add: scanLines_def MaxScanTokenSize_def dropCR_def)
  have r: "records ''junk'' = []"
    by (simp add: records_def l lineRecord_def SplitN2_no_sep)
  have q: "(\<forall>r \<in> set (records ''junk''). 0 < sint (snd r)) \<and>
      sum_list (map (\<lambda>r. sint (snd r)) (records ''junk'')) < 2 ^ 63"
    by (simp add: r)
  have n: "snd (GenerateSVG floatsExample ''junk'' DefaultSVGOptions) \<noteq> None"
    using r GenerateSVG_error [of "''junk''" floatsExample DefaultSVGOptions] by simp
  show ?thesis
    using h r q n records_examples(2)
      GenerateSVG_error [of foldedExample floatsExample DefaultSVGOptions]
      GenerateSVG_error [of "''junk''" floatsExample DefaultSVGOptions]
    by simp
qed

section \<open>The rendering does not depend on the order of the maps\<close>

lemma sameTree_unfold:
  "sameTree f g =
     (name f = name g \<and> val f = val g \<and>
      distinct (map fst (children f)) \<and> distinct (map fst (children g)) \<and>
      set (map fst (children f)) = set (map fst (children g)) \<and>
      (\<forall>p \<in> set (children f).
         case map_of (children g) (fst p) of
           None \<Rightarrow> False
         | Some c \<Rightarrow> sameTree (snd p) c))"
  by (cases f) simp

lemma sameTree_lookup:
  assumes "sameTree f g" "map_of (children f) k = Some c"
  shows "\<exists>c'. map_of (children g) k = Some c' \<and> sameTree c c'"
proof -
  have m: "(k, c) \<in> set (children f)" using assms(2) by (rule map_of_SomeD)
  have "\<forall>p \<in> set (children f).
      case map_of (children g) (fst p) of None \<Rightarrow> False | Some c' \<Rightarrow> sameTree (snd p) c'"
    using assms(1) sameTree_unfold [of f g] by blast
  from bspec [OF this m]
  have "case map_of (children g) k of None \<Rightarrow> False | Some c' \<Rightarrow> sameTree c c'"
    by (simp split: option.splits)
  then show ?thesis
    by (cases "map_of (children g) k") simp_all
qed

lemma sameTree_lookup_rev:
  assumes "sameTree f g" "map_of (children g) k = Some c'"
  shows "\<exists>c. map_of (children f) k = Some c \<and> sameTree c c'"
proof -
  have "k \<in> set (map fst (children g))"
    using assms(2) by (metis map_of_eq_None_iff option.distinct(1) set_map)
  then have "k \<in> set (map fst (children f))"
    using assms(1) sameTree_unfold [of f g] by simp
  then obtain c where c: "map_of (children f) k = Some c"
    by (metis map_of_eq_None_iff not_Some_eq set_map)
  from sameTree_lookup [OF assms(1) c] assms(2) c show ?thesis by auto
qed

lemma sameTree_names:
  assumes "sameTree f g"
  shows "sort (map fst (children f)) = sort (map fst (children g))"
proof -
  have "distinct (map fst (children f))" "distinct (map fst (children g))"
    "set (map fst (children f)) = set (map fst (children g))"
    using assms sameTree_unfold [of f g] by blast+
  then have "mset (map fst (children f)) = mset (map fst (children g))"
    by (simp only: set_eq_iff_mset_eq_distinct)
  then show ?thesis
    by (metis mset_sort properties_for_sort sorted_sort)
qed

lemma fold_max:
  "fold (\<lambda>child mx. let d = h child in if d > mx then d else mx) cs (d0::int) =
     Max (insert d0 (h ` set cs))"
proof (induction cs arbitrary: d0)
  case Nil
  then show ?case by simp
next
  case (Cons c cs)
  have "(if d0 < h c then h c else d0) = max d0 (h c)" by (simp add: max_def)
  then have "fold (\<lambda>child mx. let d = h child in if d > mx then d else mx) (c # cs) d0 =
      Max (insert (max d0 (h c)) (h ` set cs))"
    using Cons.IH [of "max d0 (h c)"] by (simp add: Let_def)
  also have "\<dots> = Max (insert d0 (h ` set (c # cs)))"
  proof -
    have "Max (insert (max d0 (h c)) (h ` set cs)) = max (max d0 (h c)) (Max (insert (max d0 (h c)) (h ` set cs)))"
      by (simp add: max_def)
    have "insert d0 (h ` set (c # cs)) = insert d0 (insert (h c) (h ` set cs))" by simp
    moreover have "Max (insert d0 (insert (h c) (h ` set cs))) =
        max d0 (Max (insert (h c) (h ` set cs)))"
      by (rule Max_insert) simp_all
    moreover have "Max (insert (max d0 (h c)) (h ` set cs)) =
        (if h ` set cs = {} then max d0 (h c) else max (max d0 (h c)) (Max (h ` set cs)))"
      by simp
    moreover have "Max (insert (h c) (h ` set cs)) =
        (if h ` set cs = {} then h c else max (h c) (Max (h ` set cs)))"
      by simp
    ultimately show ?thesis by (simp add: max.assoc)
  qed
  finally show ?case .
qed

lemma getMaxDepth_Max:
  "getMaxDepth f depth =
     Max (insert depth ((\<lambda>c. getMaxDepth c (depth + 1)) ` set (map snd (children f))))"
  by (cases f) (simp add: fold_max del: set_map)

lemma sameTree_maxDepth:
  "sameTree f g \<Longrightarrow> getMaxDepth f depth = getMaxDepth g depth"
proof (induction f arbitrary: g depth)
  case (Frame nm v ch)
  let ?f = "Frame nm v ch"
  have IH: "\<And>c c' d. c \<in> set (map snd ch) \<Longrightarrow> sameTree c c' \<Longrightarrow>
      getMaxDepth c d = getMaxDepth c' d"
    using Frame.IH by (auto simp: snds.simps)
  have d: "distinct (map fst ch)" "distinct (map fst (children g))"
    using Frame.prems sameTree_unfold [of ?f g] by simp_all
  have "(\<lambda>c. getMaxDepth c (depth + 1)) ` set (map snd ch) =
      (\<lambda>c. getMaxDepth c (depth + 1)) ` set (map snd (children g))"
  proof (intro set_eqI iffI)
    fix x assume "x \<in> (\<lambda>c. getMaxDepth c (depth + 1)) ` set (map snd ch)"
    then obtain k c where kc: "(k, c) \<in> set ch" and x: "x = getMaxDepth c (depth + 1)"
      by auto
    have "map_of (children ?f) k = Some c"
      using kc d(1) by simp
    from sameTree_lookup [OF Frame.prems this]
    obtain c' where c': "map_of (children g) k = Some c'" "sameTree c c'" by blast
    have "c \<in> set (map snd ch)" using kc by force
    then have "x = getMaxDepth c' (depth + 1)"
      using IH c'(2) x by simp
    moreover have "c' \<in> set (map snd (children g))"
      using c'(1) by (metis map_of_SomeD set_zip_rightD zip_map_fst_snd)
    ultimately show "x \<in> (\<lambda>c. getMaxDepth c (depth + 1)) ` set (map snd (children g))"
      by blast
  next
    fix x assume "x \<in> (\<lambda>c. getMaxDepth c (depth + 1)) ` set (map snd (children g))"
    then obtain k c' where kc: "(k, c') \<in> set (children g)"
      and x: "x = getMaxDepth c' (depth + 1)"
      by auto
    have "map_of (children g) k = Some c'"
      using kc d(2) by simp
    from sameTree_lookup_rev [OF Frame.prems this]
    obtain c where c: "map_of (children ?f) k = Some c" "sameTree c c'" by blast
    have m: "c \<in> set (map snd ch)"
      using c(1) by (metis frame.sel(3) map_of_SomeD set_zip_rightD zip_map_fst_snd)
    then have "x = getMaxDepth c (depth + 1)"
      using IH c(2) x by simp
    then show "x \<in> (\<lambda>c. getMaxDepth c (depth + 1)) ` set (map snd ch)"
      using m by blast
  qed
  then show ?case
    by (simp only: getMaxDepth_Max [of ?f] getMaxDepth_Max [of g] frame.sel)
qed


lemma sameTree_render:
  "sameTree f g \<Longrightarrow>
     renderFrame fl f x baseY width frameHeight fontSize tot depth scheme =
     renderFrame fl g x baseY width frameHeight fontSize tot depth scheme"
proof (induction f arbitrary: g x width depth)
  case (Frame nm v ch)
  let ?f = "Frame nm v ch"
  have IH: "\<And>c c' x width depth. c \<in> set (map snd ch) \<Longrightarrow> sameTree c c' \<Longrightarrow>
      renderFrame fl c x baseY width frameHeight fontSize tot depth scheme =
      renderFrame fl c' x baseY width frameHeight fontSize tot depth scheme"
    using Frame.IH by (auto simp: snds.simps)
  have nv: "name ?f = name g" "val ?f = val g"
    using Frame.prems sameTree_unfold [of ?f g] by blast+
  have kids: "\<And>childX. set names \<subseteq> set (map fst ch) \<Longrightarrow>
      renderChildren fl ?f names childX baseY width frameHeight fontSize tot depth scheme =
      renderChildren fl g names childX baseY width frameHeight fontSize tot depth scheme"
    for names
  proof (induction names)
    case Nil
    show ?case by (simp add: renderChildren.simps)
  next
    case (Cons k names)
    have "k \<in> set (map fst ch)" using Cons.prems by simp
    then obtain c where c: "map_of (children ?f) k = Some c"
      by (metis frame.sel(3) map_of_eq_None_iff not_Some_eq set_map)
    from sameTree_lookup [OF Frame.prems c]
    obtain c' where c': "map_of (children g) k = Some c'" "sameTree c c'" by blast
    have m: "c \<in> set (map snd ch)"
      using c by (metis frame.sel(3) map_of_SomeD set_zip_rightD zip_map_fst_snd)
    have vc: "val c = val c'"
      using c'(2) sameTree_unfold [of c c'] by blast
    have rest: "set names \<subseteq> set (map fst ch)" using Cons.prems by simp
    show ?case
      using c c' vc nv IH [OF m c'(2)] Cons.IH [OF rest]
      by (simp add: renderChildren.simps Let_def)
  qed
  have names: "sort (map fst (children ?f)) = sort (map fst (children g))"
    by (rule sameTree_names [OF Frame.prems])
  have sub: "set (sort (map fst (children ?f))) \<subseteq> set (map fst ch)" by simp
  have t: "\<And>p. titleText ?f p = titleText g p"
    using nv by (simp add: titleText_def)
  show ?case
    unfolding renderFrame.simps [of fl ?f] renderFrame.simps [of fl g]
    using kids [OF sub] names nv t
    by (simp add: Let_def)
qed

lemma sameTree_refl_iff:
  "sameTree f f =
     (distinct (map fst (children f)) \<and> (\<forall>c \<in> set (map snd (children f)). sameTree c c))"
proof -
  have u: "sameTree f f =
      (distinct (map fst (children f)) \<and>
       (\<forall>p \<in> set (children f).
          case map_of (children f) (fst p) of None \<Rightarrow> False | Some c \<Rightarrow> sameTree (snd p) c))"
    by (subst sameTree_unfold) simp
  show ?thesis
  proof (cases "distinct (map fst (children f))")
    case False
    then show ?thesis by (simp only: u simp_thms)
  next
    case True
    have l: "\<And>p. p \<in> set (children f) \<Longrightarrow> map_of (children f) (fst p) = Some (snd p)"
      using True by simp
    have "(\<forall>p \<in> set (children f).
           case map_of (children f) (fst p) of None \<Rightarrow> False | Some c \<Rightarrow> sameTree (snd p) c) =
        (\<forall>p \<in> set (children f). sameTree (snd p) (snd p))"
      by (rule ball_cong [OF refl]) (simp only: l option.case)
    also have "\<dots> = (\<forall>c \<in> set (map snd (children f)). sameTree c c)"
      by simp
    finally show ?thesis
      by (simp only: u True simp_thms)
  qed
qed

lemma sameTree_reflI:
  "distinct (map fst (children f)) \<Longrightarrow>
   (\<And>c. c \<in> set (map snd (children f)) \<Longrightarrow> sameTree c c) \<Longrightarrow> sameTree f f"
  by (rule iffD2 [OF sameTree_refl_iff]) blast

lemma sameTree_reflD:
  "sameTree f f \<Longrightarrow>
     distinct (map fst (children f)) \<and> (\<forall>c \<in> set (map snd (children f)). sameTree c c)"
  by (rule iffD1 [OF sameTree_refl_iff])

lemma sameTree_bump: "sameTree f f \<Longrightarrow> sameTree (bumpFrame fr c f) (bumpFrame fr c f)"
proof (induction fr arbitrary: f)
  case Nil
  have ch: "children (bumpFrame [] c f) = children f"
    by (simp add: bumpFrame_def)
  show ?case
  proof (rule sameTree_reflI)
    show "distinct (map fst (children (bumpFrame [] c f)))"
      unfolding ch using sameTree_reflD [OF Nil] by blast
  next
    fix x assume "x \<in> set (map snd (children (bumpFrame [] c f)))"
    then show "sameTree x x"
      unfolding ch using sameTree_reflD [OF Nil] by blast
  qed
next
  case (Cons k rest)
  define child0 where
    "child0 = (case map_of (children f) k of None \<Rightarrow> newFrame k | Some x \<Rightarrow> x)"
  have d: "distinct (map fst (children f))"
    and a: "\<forall>x \<in> set (map snd (children f)). sameTree x x"
    using sameTree_reflD [OF Cons.prems] by blast+
  have "sameTree child0 child0"
  proof (cases "map_of (children f) k")
    case None
    then show ?thesis by (simp add: child0_def newFrame_def)
  next
    case (Some x)
    then have "x \<in> set (map snd (children f))"
      by (metis map_of_SomeD set_zip_rightD zip_map_fst_snd)
    then have "sameTree x x" using a by blast
    then show ?thesis using Some by (simp add: child0_def)
  qed
  then have c1: "sameTree (bumpFrame rest c child0) (bumpFrame rest c child0)"
    by (rule Cons.IH)
  have ch: "children (bumpFrame (k # rest) c f) =
      AList.update k (bumpFrame rest c child0) (children f)"
    by (simp add: bumpFrame_def child0_def Let_def)
  show ?case
  proof (rule sameTree_reflI)
    show "distinct (map fst (children (bumpFrame (k # rest) c f)))"
      unfolding ch using d by (simp add: distinct_update)
  next
    fix x assume "x \<in> set (map snd (children (bumpFrame (k # rest) c f)))"
    then have "x = bumpFrame rest c child0 \<or> x \<in> set (map snd (children f))"
      unfolding ch by (rule snd_update_cases)
    then show "sameTree x x"
      using c1 a by blast
  qed
qed

lemma sameTree_foldl:
  "foldl addLine (root, tot) ls = (root', tot') \<Longrightarrow> sameTree root root \<Longrightarrow>
     sameTree root' root'"
proof (induction ls arbitrary: root tot)
  case Nil
  then show ?case by simp
next
  case (Cons l ls)
  show ?case
  proof (cases "lineRecord l")
    case None
    then show ?thesis
      using Cons by (simp add: addLine_record)
  next
    case (Some r)
    obtain fr c where r: "r = (fr, c)" by (cases r)
    have "foldl addLine (bumpFrame fr c root, tot + c) ls = (root', tot')"
      using Cons.prems(1) Some r by (simp add: addLine_record)
    then show ?thesis
      using Cons.IH sameTree_bump [OF Cons.prems(2)] by blast
  qed
qed

lemma parse_sameTree: "parseCollapsed collapsed = (root, tot) \<Longrightarrow> sameTree root root"
proof -
  assume "parseCollapsed collapsed = (root, tot)"
  then have "foldl addLine (newFrame ''root'', 0) (scanLines collapsed) = (root, tot)"
    by (simp add: parseCollapsed_def)
  moreover have "sameTree (newFrame ''root'') (newFrame ''root'')"
    by (simp add: newFrame_def)
  ultimately show ?thesis by (rule sameTree_foldl)
qed

text \<open>
  Claim C7.  The tree \<open>GenerateSVG\<close> builds is a tree of maps (distinct keys), and
  the text it writes is a function of the input, the options and that tree of maps:
  whatever order the entries of the \<open>children\<close> maps are
  listed (or iterated) in, \<open>getMaxDepth\<close> returns the same depth and \<open>renderFrame\<close>
  writes the same bytes, because the former takes a maximum and the latter sorts the
  names.  Nothing else enters the output (the colour is \<open>frameColor depth scheme\<close>, the
  percentage a function of the value and the total).
\<close>

theorem render_deterministic:
  "parseCollapsed collapsed = (root, tot) \<Longrightarrow> sameTree root root' \<Longrightarrow>
     sameTree root root \<and>
     writeSVG fl root tot opts = writeSVG fl root' tot opts \<and>
     GenerateSVG fl collapsed opts =
       (if tot = 0 then ([], Some NoSamples)
        else (writeSVG fl root' tot
                (if Width opts = 0 then opts\<lparr>Width := 1200\<rparr> else opts), None))"
proof -
  assume p: "parseCollapsed collapsed = (root, tot)" and s: "sameTree root root'"
  have w: "\<And>opts. writeSVG fl root tot opts = writeSVG fl root' tot opts"
    by (simp add: writeSVG_def Let_def sameTree_maxDepth [OF s] sameTree_render [OF s])
  show ?thesis
    using w parse_sameTree [OF p] by (simp add: GenerateSVG_def p Let_def)
qed

theorem render_deterministic_witness:
  "parseCollapsed foldedExample = (treeExample, 3) \<and>
   sameTree treeExample treeSwapped \<and> treeExample \<noteq> treeSwapped \<and>
   writeSVG floatsExample treeExample 3 DefaultSVGOptions =
     writeSVG floatsExample treeSwapped 3 DefaultSVGOptions \<and>
   GenerateSVG floatsExample foldedExample DefaultSVGOptions =
     (writeSVG floatsExample treeSwapped 3 DefaultSVGOptions, None)"
proof -
  have s: "sameTree treeExample treeSwapped"
    by (auto simp add: treeExample_def treeSwapped_def)
  have n: "treeExample \<noteq> treeSwapped"
    by (simp add: treeExample_def treeSwapped_def)
  show ?thesis
    using render_deterministic [OF parse_example s, of floatsExample DefaultSVGOptions]
      parse_example s n
    by (simp add: DefaultSVGOptions_def)
qed


section \<open>The colours of the frames\<close>

lemma smod_bounds: "0 \<le> a \<Longrightarrow> 0 < b \<Longrightarrow> 0 \<le> (a::int) smod b \<and> a smod b < b"
  by (simp add: smod_int_compares)

lemma wrap64_id: "- (2 ^ 63) \<le> i \<Longrightarrow> i < 2 ^ 63 \<Longrightarrow> wrap64 i = i"
  by (simp add: wrap64_def signed_take_bit_int_eq_self)

lemma band:
  assumes p: "0 \<le> p" "p < 2 ^ 63" and b: "0 < b" "b \<le> 150" and c: "0 \<le> c" "c \<le> 200"
  shows "0 \<le> wrap64 (c + wrap64 p smod b) \<and> wrap64 (c + wrap64 p smod b) < c + b"
proof -
  have w: "wrap64 p = p" using p by (simp add: wrap64_id)
  have m: "0 \<le> p smod b \<and> p smod b < b" using p b by (simp add: smod_bounds)
  have "wrap64 (c + p smod b) = c + p smod b"
    using m b c by (intro wrap64_id) simp_all
  then show ?thesis using w m c by simp
qed

text \<open>
  Claim C10, as the specification states it, at a depth whose product with 40 does not fit
  64 bits: at depth \<open>2^58 + 1\<close> the product \<open>depth * 40\<close> wraps around to
  \<open>-6917529027641081816\<close>, Go's \<open>%\<close> gives \<open>-116\<close>, and the green component of the
  default scheme is \<open>-66\<close>, which is not between 0 and 255.
\<close>

theorem frameColor_counterexample:
  "(0::int) \<le> 288230376151711745 \<and>
   wrap64 (288230376151711745 * 40) = - 6917529027641081816 \<and>
   frameColor 288230376151711745 ''hot'' = (205, - 66, 30) \<and>
   \<not> (case frameColor 288230376151711745 ''hot'' of
        (r, g, b) \<Rightarrow> 0 \<le> r \<and> r \<le> 255 \<and> 0 \<le> g \<and> g \<le> 255 \<and> 0 \<le> b \<and> b \<le> 255)"
  by (simp add: frameColor_def wrap64_def signed_modulo_int_def)

text \<open>
  Claim C10, amended.  For every depth that is not negative and whose product with the
  factor of the scheme (30 for "cold", 15 for "mem", 40 otherwise) is below \<open>2^63\<close>, and
  every colour scheme, also one that is neither "cold" nor "mem" (which is then treated as
  "hot"), \<open>frameColor\<close> returns red, green and blue components between 0 and 255.
\<close>

theorem frameColor_rgb:
  "0 \<le> depth \<Longrightarrow>
   depth * (if scheme = ''cold'' then 30 else if scheme = ''mem'' then 15 else 40) < 2 ^ 63 \<Longrightarrow>
     (case frameColor depth scheme of
        (r, g, b) \<Rightarrow> 0 \<le> r \<and> r \<le> 255 \<and> 0 \<le> g \<and> g \<le> 255 \<and> 0 \<le> b \<and> b \<le> 255)"
proof -
  assume d: "0 \<le> depth"
    and o: "depth * (if scheme = ''cold'' then 30 else if scheme = ''mem'' then 15 else 40) < 2 ^ 63"
  show ?thesis
  proof (cases "scheme = ''cold''")
    case True
    have p: "0 \<le> depth * 30" "depth * 30 < 2 ^ 63" "0 \<le> depth * 20" "depth * 20 < 2 ^ 63"
      using d o True by simp_all
    have "0 \<le> wrap64 (50 + wrap64 (depth * 30) smod 150) \<and>
          wrap64 (50 + wrap64 (depth * 30) smod 150) < 50 + 150"
      by (rule band [OF p(1) p(2)]) simp_all
    moreover have "0 \<le> wrap64 (150 + wrap64 (depth * 20) smod 100) \<and>
          wrap64 (150 + wrap64 (depth * 20) smod 100) < 150 + 100"
      by (rule band [OF p(3) p(4)]) simp_all
    ultimately show ?thesis using True by (simp add: frameColor_def Let_def)
  next
    case False
    note nc = this
    show ?thesis
    proof (cases "scheme = ''mem''")
      case True
      have p: "0 \<le> depth * 15" "depth * 15 < 2 ^ 63" using d o True by simp_all
      have "0 \<le> wrap64 (190 + wrap64 (depth * 15) smod 60) \<and>
            wrap64 (190 + wrap64 (depth * 15) smod 60) < 190 + 60"
        by (rule band [OF p(1) p(2)]) simp_all
      then show ?thesis using True by (simp add: frameColor_def Let_def)
    next
      case False
      have p: "0 \<le> depth * 15" "depth * 15 < 2 ^ 63" "0 \<le> depth * 40" "depth * 40 < 2 ^ 63"
        using d o nc False by simp_all
      have "0 \<le> wrap64 (200 + wrap64 (depth * 15) smod 55) \<and>
            wrap64 (200 + wrap64 (depth * 15) smod 55) < 200 + 55"
        by (rule band [OF p(1) p(2)]) simp_all
      moreover have "0 \<le> wrap64 (50 + wrap64 (depth * 40) smod 150) \<and>
            wrap64 (50 + wrap64 (depth * 40) smod 150) < 50 + 150"
        by (rule band [OF p(3) p(4)]) simp_all
      ultimately show ?thesis using nc False by (simp add: frameColor_def Let_def)
    qed
  qed
qed

theorem frameColor_rgb_witness:
  "(0::int) \<le> 7 \<and> (7::int) * 40 < 2 ^ 63 \<and> frameColor 7 ''purple'' = (250, 180, 30) \<and>
   (case frameColor 7 ''purple'' of
      (r, g, b) \<Rightarrow> 0 \<le> r \<and> r \<le> 255 \<and> 0 \<le> g \<and> g \<le> 255 \<and> 0 \<le> b \<and> b \<le> 255)"
proof -
  have h: "(0::int) \<le> 7" by simp
  have o: "(7::int) * (if ''purple'' = ''cold'' then 30 else if ''purple'' = ''mem'' then 15 else 40)
             < 2 ^ 63"
    by simp
  have c: "frameColor 7 ''purple'' = (250, 180, 30)"
    by (simp add: frameColor_def wrap64_def signed_modulo_int_def)
  show ?thesis using h c frameColor_rgb [OF h o] by simp
qed

end
